theory Spec2Isabelle
  imports Complex_Main "HOL-Library.Sublist" "HOL-Library.Multiset"
begin

section \<open>The game engine (the script of the page): data model\<close>

text \<open>
  A falling word, as pushed by \<open>spawnWord\<close>: \<open>{ id, text, x, y, width }\<close>.
  JavaScript numbers that hold coordinates, widths and times are modelled as reals;
  the counters (\<open>id\<close>, \<open>score\<close>, \<open>combo\<close>) start at 0 or 1 and are only
  incremented, so they are naturals. A JavaScript string is the list of its code
  units.
\<close>

record word =
  word_id :: nat
  word_text :: string
  word_x :: real
  word_y :: real
  word_width :: real

datatype effect_kind = dissolve | score_gain

record effect =
  eff_kind :: effect_kind
  eff_text :: string
  eff_x :: real
  eff_y :: real
  eff_durationMs :: real
  eff_startedAt :: real

text \<open>
  The \<open>state\<close> object of the source, field by field, followed by what the engine
  writes to the page (HUD texts, status line, result box, the two panels) and by
  \<open>draws\<close>, the number of values \<open>Math.random()\<close> has handed out so far.
\<close>

record state =
  running :: bool
  frozen :: bool
  gameOver :: bool
  score :: nat
  combo :: nat
  inputBuffer :: string
  targetWordId :: "nat option"
  speedLevel :: real
  pendingWords :: "string list"
  activeWords :: "word list"
  missedWords :: "string list"
  spawnTimer :: real
  effects :: "effect list"
  nextWordId :: nat
  lastFrameTime :: real
  maxActiveWords :: nat
  accent :: string
  scoreEl :: string
  comboEl :: string
  statusEl :: string
  finalScoreEl :: string
  resultBoxHidden :: bool
  setupPanelHidden :: bool
  gamePanelHidden :: bool
  draws :: nat

text \<open>
  What the engine reads from its host: the canvas size, the text measurement of the
  2D context (for the fixed font the engine sets), and the stream of values of
  \<open>Math.random()\<close>, each in \<open>[0, 1)\<close>.
\<close>

record env =
  canvasWidth :: real
  canvasHeight :: real
  measureText :: "string \<Rightarrow> real"
  random :: "nat \<Rightarrow> real"


definition topY :: real where
  "topY = 26"

definition groundY :: "env \<Rightarrow> real" where
  "groundY e = canvasHeight e - 42"

definition sidePadding :: real where
  "sidePadding = 18"

section \<open>Targeting\<close>

text \<open>
  \<open>chooseTarget(prefix)\<close>: one pass over \<open>state.activeWords\<close> with the running
  \<open>best\<close>; a word that does not start with the prefix is skipped, a word replaces
  \<open>best\<close> when there is none yet or when its \<open>y\<close> is strictly greater.
\<close>

fun chooseTarget_loop :: "string \<Rightarrow> word option \<Rightarrow> word list \<Rightarrow> word option" where
  "chooseTarget_loop p best [] = best"
| "chooseTarget_loop p best (w # ws) =
     (if \<not> prefix p (word_text w) then chooseTarget_loop p best ws
      else (case best of
              None \<Rightarrow> chooseTarget_loop p (Some w) ws
            | Some b \<Rightarrow> if word_y w > word_y b then chooseTarget_loop p (Some w) ws
                        else chooseTarget_loop p best ws))"

definition chooseTarget :: "state \<Rightarrow> string \<Rightarrow> word option" where
  "chooseTarget s p = chooseTarget_loop p None (activeWords s)"

section \<open>Host functions used by the engine\<close>

text \<open>
  \<open>String(n)\<close> for a non-negative integer: its decimal digits.
\<close>

definition digit_char :: "nat \<Rightarrow> char" where
  "digit_char d = ''0123456789'' ! d"

function decimal :: "nat \<Rightarrow> string" where
  "decimal n = (if n < 10 then [digit_char n] else decimal (n div 10) @ [digit_char (n mod 10)])"
  by pat_completeness auto
termination
  by (relation "measure (\<lambda>n. n)") auto

declare decimal.simps [simp del]

text \<open>
  \<open>toLowerCase\<close> on the keys the keydown listener lets through (one ASCII letter):
  an upper-case ASCII letter becomes its lower-case letter, every other code unit of
  the ASCII range is unchanged.
\<close>

definition upper_letters :: string where
  "upper_letters = ''ABCDEFGHIJKLMNOPQRSTUVWXYZ''"

definition lower_letters :: string where
  "lower_letters = ''abcdefghijklmnopqrstuvwxyz''"

definition lower_char :: "char \<Rightarrow> char" where
  "lower_char c = (case map_of (zip upper_letters lower_letters) c of Some l \<Rightarrow> l | None \<Rightarrow> c)"

definition toLowerCase :: "string \<Rightarrow> string" where
  "toLowerCase str = map lower_char str"

text \<open>
  \<open>shuffle(list)\<close>: a copy of the list, then for \<open>i\<close> from \<open>length - 1\<close> down to 1
  the elements at \<open>i\<close> and at \<open>j = floor(Math.random() * (i + 1))\<close> are swapped.
  \<open>rnd\<close> is the stream of random values and \<open>d\<close> the index of the next one; the loop
  consumes \<open>length - 1\<close> of them. A draw lies in \<open>[0, 1)\<close>, so \<open>j \<le> i\<close>.
\<close>

fun shuffle_loop :: "(nat \<Rightarrow> real) \<Rightarrow> nat \<Rightarrow> nat \<Rightarrow> 'a list \<Rightarrow> 'a list" where
  "shuffle_loop rnd d 0 arr = arr"
| "shuffle_loop rnd d (Suc i) arr =
     (let j = nat \<lfloor>rnd d * (real (Suc i) + 1)\<rfloor>
      in shuffle_loop rnd (d + 1) i (arr[Suc i := arr ! j, j := arr ! Suc i]))"

definition shuffle :: "(nat \<Rightarrow> real) \<Rightarrow> nat \<Rightarrow> 'a list \<Rightarrow> 'a list" where
  "shuffle rnd d list = shuffle_loop rnd d (length list - 1) list"

section \<open>Engine operations\<close>

text \<open>
  The fall time for a speed level; \<open>Math.pow(t, 1.6)\<close> is \<open>t powr 1.6\<close> for the
  levels \<open>1\<close> to \<open>10\<close> of the speed control, where \<open>t\<close> lies in \<open>[0, 1]\<close>.
\<close>

definition speedToFallSeconds :: "real \<Rightarrow> real" where
  "speedToFallSeconds level =
     (let minSeconds = 3; maxSeconds = 10; t = (level - 1) / 9; curved = t powr 1.6
      in maxSeconds - (maxSeconds - minSeconds) * curved)"

definition speedToPixelsPerSecond :: "env \<Rightarrow> real \<Rightarrow> real" where
  "speedToPixelsPerSecond e level =
     (let seconds = speedToFallSeconds level; distance = groundY e - topY
      in distance / seconds)"

definition updateHUD :: "state \<Rightarrow> state" where
  "updateHUD s = s\<lparr>scoreEl := decimal (score s), comboEl := decimal (combo s)\<rparr>"

definition resetRuntimeState :: "state \<Rightarrow> state" where
  "resetRuntimeState s =
     (updateHUD (s\<lparr>running := True, frozen := False, gameOver := False, score := 0,
                    combo := 0, inputBuffer := [], targetWordId := None, spawnTimer := 0,
                    activeWords := [], missedWords := [], effects := [], nextWordId := 1,
                    lastFrameTime := 0\<rparr>))
       \<lparr>statusEl := ''Running'', resultBoxHidden := True\<rparr>"

text \<open>
  \<open>chooseSpawnX(text)\<close>, with \<open>r\<close> the value of its one call of \<open>Math.random()\<close>.
\<close>

definition chooseSpawnX :: "env \<Rightarrow> real \<Rightarrow> string \<Rightarrow> real \<times> real" where
  "chooseSpawnX e r txt =
     (let width = max 40 (measureText e txt + 16);
          minX = sidePadding;
          maxX = canvasWidth e - sidePadding - width;
          x = minX + r * max 1 (maxX - minX)
      in (x, width))"

text \<open>
  \<open>spawnWord()\<close> returns its boolean together with the state it leaves.
\<close>

definition spawnWord :: "env \<Rightarrow> state \<Rightarrow> bool \<times> state" where
  "spawnWord e s =
     (if length (activeWords s) \<ge> maxActiveWords s then (False, s)
      else if pendingWords s = [] \<and> missedWords s = [] then (False, s)
      else
        let s1 = (if pendingWords s = []
                  then s\<lparr>pendingWords := shuffle (random e) (draws s) (missedWords s),
                         missedWords := [],
                         draws := draws s + (length (missedWords s) - 1)\<rparr>
                  else s)
        in (case pendingWords s1 of
              [] \<Rightarrow> (False, s1)
            | txt # rest \<Rightarrow>
                (let (x, width) = chooseSpawnX e (random e (draws s1)) txt
                 in (True, s1\<lparr>pendingWords := rest,
                              activeWords := activeWords s1 @
                                [\<lparr>word_id = nextWordId s1, word_text = txt, word_x = x,
                                  word_y = topY, word_width = width\<rparr>],
                              nextWordId := nextWordId s1 + 1,
                              draws := draws s1 + 1\<rparr>))))"

definition clearInputTracking :: "state \<Rightarrow> state" where
  "clearInputTracking s = s\<lparr>inputBuffer := [], targetWordId := None\<rparr>"

definition onWordMissed :: "state \<Rightarrow> word \<Rightarrow> state" where
  "onWordMissed s w =
     (let s1 = updateHUD (s\<lparr>missedWords := missedWords s @ [word_text w], combo := 0\<rparr>)
      in if targetWordId s1 = Some (word_id w) then clearInputTracking s1 else s1)"

fun findIndex :: "('a \<Rightarrow> bool) \<Rightarrow> 'a list \<Rightarrow> nat option" where
  "findIndex P [] = None"
| "findIndex P (a # as) =
     (if P a then Some 0 else (case findIndex P as of None \<Rightarrow> None | Some k \<Rightarrow> Some (Suc k)))"

text \<open>
  \<open>removeActiveWordById(id)\<close>: the removed word (or \<open>null\<close>) and the state left.
\<close>

definition removeActiveWordById :: "state \<Rightarrow> nat \<Rightarrow> word option \<times> state" where
  "removeActiveWordById s i =
     (case findIndex (\<lambda>w. word_id w = i) (activeWords s) of
        None \<Rightarrow> (None, s)
      | Some k \<Rightarrow> (Some (activeWords s ! k),
                   s\<lparr>activeWords := take k (activeWords s) @ drop (Suc k) (activeWords s)\<rparr>))"

text \<open>
  The two effect constructors; \<open>now\<close> is the reading of \<open>performance.now()\<close>. The
  promise \<open>animateDissolve\<close> returns is part of the solve sequence below.
\<close>

definition animateDissolve :: "real \<Rightarrow> state \<Rightarrow> word \<Rightarrow> real \<Rightarrow> state" where
  "animateDissolve now s w durationMs =
     s\<lparr>effects := effects s @
         [\<lparr>eff_kind = dissolve, eff_text = word_text w, eff_x = word_x w, eff_y = word_y w,
           eff_durationMs = durationMs, eff_startedAt = now\<rparr>]\<rparr>"

definition animateScoreGain :: "real \<Rightarrow> state \<Rightarrow> word \<Rightarrow> nat \<Rightarrow> real \<Rightarrow> state" where
  "animateScoreGain now s w points durationMs =
     s\<lparr>effects := effects s @
         [\<lparr>eff_kind = score_gain, eff_text = CHR ''+'' # decimal points,
           eff_x = word_x w + word_width w + 12, eff_y = word_y w - 4,
           eff_durationMs = durationMs, eff_startedAt = now\<rparr>]\<rparr>"

definition maybeFinishGame :: "state \<Rightarrow> state" where
  "maybeFinishGame s =
     (if pendingWords s = [] \<and> activeWords s = [] \<and> missedWords s = []
      then s\<lparr>running := False, gameOver := True, statusEl := ''Complete'',
             finalScoreEl := decimal (score s), resultBoxHidden := False\<rparr>
      else s)"

text \<open>
  \<open>onWordSolved(word)\<close> is asynchronous. Its first part runs inside the keystroke
  handler, up to the \<open>await\<close> of the dissolve timer and the speech; its second part
  runs when both have completed. The speech itself changes nothing in the state.
\<close>

definition onWordSolved_begin :: "real \<Rightarrow> state \<Rightarrow> word \<Rightarrow> state" where
  "onWordSolved_begin now s w =
     (let s1 = s\<lparr>combo := combo s + 1\<rparr>;
          points = combo s1;
          s2 = updateHUD (s1\<lparr>score := score s1 + points\<rparr>);
          s3 = animateScoreGain now s2 w points 850;
          s4 = s3\<lparr>frozen := True, statusEl := ''Speaking''\<rparr>
      in animateDissolve now s4 w 600)"

definition onWordSolved_resume :: "state \<Rightarrow> state" where
  "onWordSolved_resume s = maybeFinishGame (s\<lparr>frozen := False, statusEl := ''Running''\<rparr>)"

text \<open>
  \<open>handleTypedCharacter(ch)\<close>; \<open>now\<close> is the clock reading used should the keystroke
  solve a word.
\<close>

definition handleTypedCharacter :: "real \<Rightarrow> state \<Rightarrow> string \<Rightarrow> state" where
  "handleTypedCharacter now s ch =
     (if \<not> running s \<or> frozen s \<or> gameOver s then s
      else
        let lower = toLowerCase ch;
            hadInput = (length (inputBuffer s) > 0);
            nextBuffer0 = inputBuffer s @ lower;
            target0 = chooseTarget s nextBuffer0;
            brokenChain = (target0 = None \<and> hadInput);
            nextBuffer = (if target0 = None then lower else nextBuffer0);
            target = (if target0 = None then chooseTarget s nextBuffer else target0);
            s1 = (if brokenChain then updateHUD (s\<lparr>combo := 0\<rparr>) else s)
        in (case target of
              None \<Rightarrow> clearInputTracking s1
            | Some t \<Rightarrow>
                (let s2 = s1\<lparr>inputBuffer := nextBuffer, targetWordId := Some (word_id t)\<rparr>
                 in if inputBuffer s2 = word_text t
                    then (let (solved, s3) = removeActiveWordById s2 (word_id t);
                              s4 = clearInputTracking s3
                          in (case solved of
                                None \<Rightarrow> s4
                              | Some w \<Rightarrow> onWordSolved_begin now s4 w))
                    else s2)))"

definition handleControlKey :: "state \<Rightarrow> string \<Rightarrow> state" where
  "handleControlKey s key =
     (if key = ''Backspace'' then
        (if length (inputBuffer s) = 0 then s
         else
           let s1 = s\<lparr>inputBuffer := butlast (inputBuffer s)\<rparr>
           in if length (inputBuffer s1) = 0 then s1\<lparr>targetWordId := None\<rparr>
              else (case chooseTarget s1 (inputBuffer s1) of
                      Some t \<Rightarrow> s1\<lparr>targetWordId := Some (word_id t)\<rparr>
                    | None \<Rightarrow> s1\<lparr>targetWordId := None\<rparr>))
      else if key = ''Escape'' then clearInputTracking s
      else s)"

definition updateEffects :: "real \<Rightarrow> state \<Rightarrow> state" where
  "updateEffects now s =
     s\<lparr>effects := filter (\<lambda>ef. now - eff_startedAt ef < eff_durationMs ef) (effects s)\<rparr>"

text \<open>
  The spawn loop of \<open>updateWorld\<close>: while the timer is at least 1, take 1 off and try
  to spawn.
\<close>

function spawn_loop :: "env \<Rightarrow> state \<Rightarrow> state" where
  "spawn_loop e s =
     (if spawnTimer s \<ge> 1
      then spawn_loop e (snd (spawnWord e (s\<lparr>spawnTimer := spawnTimer s - 1\<rparr>)))
      else s)"
  by pat_completeness auto
termination
proof (relation "measure (\<lambda>(e, s). nat \<lfloor>spawnTimer s\<rfloor>)")
  show "wf (measure (\<lambda>(e, s). nat \<lfloor>spawnTimer s\<rfloor>))"
    by simp
next
  fix e :: env and s :: state
  assume ge: "1 \<le> spawnTimer s"
  have keep: "spawnTimer (snd (spawnWord e t)) = spawnTimer t" for t
    by (simp add: spawnWord_def Let_def split: list.split prod.split)
  have "\<lfloor>spawnTimer s - 1\<rfloor> = \<lfloor>spawnTimer s\<rfloor> - 1"
    by simp
  moreover have "1 \<le> \<lfloor>spawnTimer s\<rfloor>"
    using ge by simp
  ultimately show "((e, snd (spawnWord e (s\<lparr>spawnTimer := spawnTimer s - 1\<rparr>))), (e, s))
      \<in> measure (\<lambda>(e, s). nat \<lfloor>spawnTimer s\<rfloor>)"
    by (simp add: keep)
qed

declare spawn_loop.simps [simp del]

text \<open>
  The fall loop of \<open>updateWorld\<close>: each word's \<open>y\<close> advances by \<open>speed * dt\<close>; a word at
  or below the ground line is reported missed and dropped, the others are collected
  in \<open>survivors\<close>, in order.
\<close>

fun fall_loop :: "real \<Rightarrow> real \<Rightarrow> state \<Rightarrow> word list \<Rightarrow> word list \<Rightarrow> state \<times> word list" where
  "fall_loop ground dy s survivors [] = (s, survivors)"
| "fall_loop ground dy s survivors (w # ws) =
     (let w1 = w\<lparr>word_y := word_y w + dy\<rparr>
      in if word_y w1 \<ge> ground
         then fall_loop ground dy (onWordMissed s w1) survivors ws
         else fall_loop ground dy s (survivors @ [w1]) ws)"

definition updateWorld :: "env \<Rightarrow> state \<Rightarrow> real \<Rightarrow> state" where
  "updateWorld e s dt =
     (let s1 = spawn_loop e (s\<lparr>spawnTimer := spawnTimer s + dt\<rparr>);
          speed = speedToPixelsPerSecond e (speedLevel s1);
          (s2, survivors) = fall_loop (groundY e) (speed * dt) s1 [] (activeWords s1)
      in maybeFinishGame (s2\<lparr>activeWords := survivors\<rparr>))"

text \<open>
  \<open>loop(now)\<close>, one animation frame; \<open>render\<close> only draws.
\<close>

definition loop :: "env \<Rightarrow> state \<Rightarrow> real \<Rightarrow> state" where
  "loop e s now =
     (let s1 = (if lastFrameTime s = 0 then s\<lparr>lastFrameTime := now\<rparr> else s);
          dt = min 0.1 ((now - lastFrameTime s1) / 1000);
          s2 = updateEffects now (s1\<lparr>lastFrameTime := now\<rparr>)
      in if running s2 \<and> \<not> frozen s2 \<and> \<not> gameOver s2 then updateWorld e s2 dt else s2)"

text \<open>
  \<open>startGame()\<close> from the point where the word list has arrived and is not empty:
  \<open>normalizedWords\<close> are the lower-cased, trimmed, non-empty words, \<open>maxWords\<close> is the
  value of \<open>parseMaxWordsLimit\<close>, \<open>speed\<close> and \<open>acc\<close> are read from the two controls.
\<close>

definition startGame :: "env \<Rightarrow> state \<Rightarrow> real \<Rightarrow> string \<Rightarrow> string list \<Rightarrow> nat \<Rightarrow> state" where
  "startGame e s speed acc normalizedWords maxWords =
     (let s1 = (resetRuntimeState s)\<lparr>speedLevel := speed, accent := acc\<rparr>;
          n = length normalizedWords;
          (selectedWords, d1) =
             (if maxWords > 0
              then (take (min maxWords n) (shuffle (random e) (draws s1) normalizedWords),
                    draws s1 + (n - 1))
              else (normalizedWords, draws s1));
          s2 = s1\<lparr>pendingWords := shuffle (random e) d1 selectedWords,
                  draws := d1 + (length selectedWords - 1)\<rparr>;
          s3 = s2\<lparr>setupPanelHidden := True, gamePanelHidden := False\<rparr>
      in snd (spawnWord e s3))"

definition goToSetup :: "state \<Rightarrow> state" where
  "goToSetup s =
     (clearInputTracking (s\<lparr>running := False, frozen := False, gameOver := False\<rparr>))
       \<lparr>gamePanelHidden := True, setupPanelHidden := False\<rparr>"

text \<open>
  The keydown listener: \<open>/^[a-zA-Z]$/\<close> selects the keys that are one ASCII letter.
\<close>

definition is_letter_key :: "string \<Rightarrow> bool" where
  "is_letter_key key = (case key of [c] \<Rightarrow> c \<in> set (lower_letters @ upper_letters) | _ \<Rightarrow> False)"

definition keydown :: "real \<Rightarrow> state \<Rightarrow> string \<Rightarrow> state" where
  "keydown now s key =
     (if \<not> running s then s
      else if is_letter_key key then handleTypedCharacter now s key
      else if key = ''Backspace'' \<or> key = ''Escape'' then handleControlKey s key
      else s)"

text \<open>
  The object literal \<open>state\<close> the script starts with. The markup of the page is not
  part of the script, so the page fields of an initial state are left open, as is the
  position in the random stream.
\<close>

definition initial :: "state \<Rightarrow> bool" where
  "initial s \<longleftrightarrow>
     \<not> running s \<and> \<not> frozen s \<and> \<not> gameOver s \<and> score s = 0 \<and> combo s = 0 \<and>
     inputBuffer s = [] \<and> targetWordId s = None \<and> speedLevel s = 1 \<and>
     pendingWords s = [] \<and> activeWords s = [] \<and> missedWords s = [] \<and>
     spawnTimer s = 0 \<and> effects s = [] \<and> nextWordId s = 1 \<and> lastFrameTime s = 0 \<and>
     maxActiveWords s = 8 \<and> accent s = ''en-US''"

text \<open>
  Everything that runs on the single timeline of the page: a key press, an animation
  frame, the completion of a solve sequence, a start of a game, a return to the setup
  panel. Each handler runs to completion before the next.
\<close>

datatype event =
    KeyDown real string
  | Frame real
  | SolveDone
  | StartGame real string "string list" nat
  | GoToSetup

fun step :: "env \<Rightarrow> state \<Rightarrow> event \<Rightarrow> state" where
  "step e s (KeyDown now key) = keydown now s key"
| "step e s (Frame now) = loop e s now"
| "step e s SolveDone = onWordSolved_resume s"
| "step e s (StartGame speed acc ws maxWords) = startGame e s speed acc ws maxWords"
| "step e s GoToSetup = goToSetup s"

inductive reachable :: "env \<Rightarrow> state \<Rightarrow> bool" for e :: env where
  reachable_init: "initial s \<Longrightarrow> reachable e s"
| reachable_step: "reachable e s \<Longrightarrow> reachable e (step e s ev)"

section \<open>The settings endpoint (main.go)\<close>

text \<open>
  Go strings are byte sequences. \<open>strings.TrimSpace\<close> removes the leading and the
  trailing white space as Unicode defines it: the six ASCII characters and the UTF-8
  encodings of U+0085, U+00A0, U+1680, U+2000 to U+200A, U+2028, U+2029, U+202F, U+205F
  and U+3000.
\<close>

definition space_runes :: "string list" where
  "space_runes =
     [[CHR 0x09], [CHR 0x0A], [CHR 0x0B], [CHR 0x0C], [CHR 0x0D], [CHR 0x20],
      [CHR 0xC2, CHR 0x85], [CHR 0xC2, CHR 0xA0], [CHR 0xE1, CHR 0x9A, CHR 0x80],
      [CHR 0xE2, CHR 0x80, CHR 0x80], [CHR 0xE2, CHR 0x80, CHR 0x81],
      [CHR 0xE2, CHR 0x80, CHR 0x82], [CHR 0xE2, CHR 0x80, CHR 0x83],
      [CHR 0xE2, CHR 0x80, CHR 0x84], [CHR 0xE2, CHR 0x80, CHR 0x85],
      [CHR 0xE2, CHR 0x80, CHR 0x86], [CHR 0xE2, CHR 0x80, CHR 0x87],
      [CHR 0xE2, CHR 0x80, CHR 0x88], [CHR 0xE2, CHR 0x80, CHR 0x89],
      [CHR 0xE2, CHR 0x80, CHR 0x8A], [CHR 0xE2, CHR 0x80, CHR 0xA8],
      [CHR 0xE2, CHR 0x80, CHR 0xA9], [CHR 0xE2, CHR 0x80, CHR 0xAF],
      [CHR 0xE2, CHR 0x81, CHR 0x9F], [CHR 0xE3, CHR 0x80, CHR 0x80]]"

function strip_runes :: "string list \<Rightarrow> string \<Rightarrow> string" where
  "strip_runes rs str =
     (case find (\<lambda>r. r \<noteq> [] \<and> prefix r str) rs of
        None \<Rightarrow> str
      | Some r \<Rightarrow> strip_runes rs (drop (length r) str))"
  by pat_completeness auto
termination
proof (relation "measure (\<lambda>(rs, str). length str)")
  show "wf (measure (\<lambda>(rs, str). length str))"
    by simp
next
  fix rs :: "string list" and str r :: string
  assume "find (\<lambda>r. r \<noteq> [] \<and> prefix r str) rs = Some r"
  then have "r \<noteq> []" and "prefix r str"
    by (auto simp: find_Some_iff)
  then have "length str - length r < length str"
    by (cases r) (auto simp: prefix_def)
  then show "((rs, drop (length r) str), (rs, str)) \<in> measure (\<lambda>(rs, str). length str)"
    by simp
qed

declare strip_runes.simps [simp del]

definition TrimSpace :: "string \<Rightarrow> string" where
  "TrimSpace str = rev (strip_runes (map rev space_runes) (rev (strip_runes space_runes str)))"

record appConfig =
  Host :: string
  Port :: int
  WordbooksDir :: string
  OpenBrowser :: bool
  Accent :: string
  Wordbook :: string

record settingsResponse =
  resp_Accent :: string
  resp_Wordbook :: string

text \<open>
  What a handler sends: \<open>http.Error\<close> with a status and a message, or the JSON
  encoding of a settings snapshot with status 200.
\<close>

datatype response = Error nat string | Json settingsResponse

text \<open>
  The configuration file as \<open>parseEnvConfig\<close> finds it: absent, unreadable or
  malformed, or parsed into a configuration.
\<close>

datatype parse_result = NotExist | Failed | Parsed appConfig

definition empty_config :: appConfig where
  "empty_config = \<lparr>Host = [], Port = 0, WordbooksDir = [], OpenBrowser = False,
                    Accent = [], Wordbook = []\<rparr>"

definition loadConfigOptional :: "parse_result \<Rightarrow> appConfig option" where
  "loadConfigOptional file =
     (case file of NotExist \<Rightarrow> Some empty_config | Failed \<Rightarrow> None | Parsed cfg \<Rightarrow> Some cfg)"

text \<open>
  \<open>handleSettingsAccent\<close>. The inputs are the server's wordbook directory, the
  request method, the \<open>accent\<close> field of the decoded body (\<open>None\<close> when the JSON
  decoder fails), the configuration file, and whether \<open>writeConfig\<close> succeeds. The
  result is the response and the configuration handed to \<open>writeConfig\<close>, if any.
\<close>

definition handleSettingsAccent ::
    "string \<Rightarrow> string \<Rightarrow> string option \<Rightarrow> parse_result \<Rightarrow> bool \<Rightarrow> response \<times> appConfig option" where
  "handleSettingsAccent wordbooksDir method body file write_ok =
     (if method \<noteq> ''PUT'' then (Error 405 ''method not allowed'', None)
      else (case body of
              None \<Rightarrow> (Error 400 ''invalid request body'', None)
            | Some req_accent \<Rightarrow>
               (let acc = TrimSpace req_accent
                in if acc \<noteq> ''en-US'' \<and> acc \<noteq> ''en-GB'' then (Error 400 ''invalid accent'', None)
                   else (case loadConfigOptional file of
                           None \<Rightarrow> (Error 500 ''failed to read settings'', None)
                         | Some cfg0 \<Rightarrow>
                            (let cfg1 = (if Host cfg0 = [] then cfg0\<lparr>Host := ''127.0.0.1''\<rparr> else cfg0);
                                 cfg2 = (if Port cfg1 = 0 then cfg1\<lparr>Port := 8080\<rparr> else cfg1);
                                 cfg3 = (if WordbooksDir cfg2 = []
                                         then cfg2\<lparr>WordbooksDir := wordbooksDir\<rparr> else cfg2);
                                 cfg4 = (if Host cfg3 = ''127.0.0.1'' \<and> Port cfg3 = 8080 \<and>
                                            WordbooksDir cfg3 = wordbooksDir \<and> Accent cfg3 = [] \<and>
                                            \<not> OpenBrowser cfg3
                                         then cfg3\<lparr>OpenBrowser := True\<rparr> else cfg3);
                                 cfg = cfg4\<lparr>Accent := acc\<rparr>
                             in if \<not> write_ok then (Error 500 ''failed to write settings'', Some cfg)
                                else (Json \<lparr>resp_Accent = Accent cfg, resp_Wordbook = Wordbook cfg\<rparr>,
                                      Some cfg))))))"

section \<open>Auxiliary notions and example values\<close>

text \<open>
  \<open>first_best p best ws t\<close>: \<open>t\<close> occurs in \<open>ws\<close> and matches the prefix, it beats the
  incoming \<open>best\<close> strictly, every matching word before it lies strictly higher on the
  screen, and no matching word after it lies lower.
\<close>

definition first_best :: "string \<Rightarrow> word option \<Rightarrow> word list \<Rightarrow> word \<Rightarrow> bool" where
  "first_best p best ws t \<longleftrightarrow>
     (\<exists>pre post. ws = pre @ t # post \<and> prefix p (word_text t) \<and>
        (\<forall>b. best = Some b \<longrightarrow> word_y b < word_y t) \<and>
        (\<forall>w\<in>set pre. prefix p (word_text w) \<longrightarrow> word_y w < word_y t) \<and>
        (\<forall>w\<in>set post. prefix p (word_text w) \<longrightarrow> word_y w \<le> word_y t))"

text \<open>
  The ids of the active words increase strictly along the array and lie below the
  counter \<open>nextWordId\<close>.
\<close>

definition ids_increasing :: "state \<Rightarrow> bool" where
  "ids_increasing s \<longleftrightarrow>
     sorted_wrt (<) (map word_id (activeWords s)) \<and>
     (\<forall>w\<in>set (activeWords s). word_id w < nextWordId s)"

text \<open>
  A state before the first game, and a running session over given pools, for examples.
\<close>

definition idle_state :: state where
  "idle_state =
     \<lparr>running = False, frozen = False, gameOver = False, score = 0, combo = 0,
      inputBuffer = [], targetWordId = None, speedLevel = 1, pendingWords = [],
      activeWords = [], missedWords = [], spawnTimer = 0, effects = [], nextWordId = 1,
      lastFrameTime = 0, maxActiveWords = 8, accent = ''en-US'', scoreEl = ''0'',
      comboEl = ''0'', statusEl = ''Running'', finalScoreEl = ''0'', resultBoxHidden = True,
      setupPanelHidden = False, gamePanelHidden = True, draws = 0\<rparr>"

definition mk_word :: "nat \<Rightarrow> string \<Rightarrow> real \<Rightarrow> word" where
  "mk_word i txt y_pos =
     \<lparr>word_id = i, word_text = txt, word_x = 18, word_y = y_pos, word_width = 40\<rparr>"

definition session :: "word list \<Rightarrow> string list \<Rightarrow> string list \<Rightarrow> state" where
  "session active pending missed =
     idle_state\<lparr>running := True, activeWords := active, pendingWords := pending,
                missedWords := missed, nextWordId := Suc (length active),
                setupPanelHidden := True, gamePanelHidden := False\<rparr>"

definition demo_env :: env where
  "demo_env = \<lparr>canvasWidth = 960, canvasHeight = 540,
               measureText = (\<lambda>txt. 17 * real (length txt)), random = (\<lambda>k. 1 / 2)\<rparr>"

text \<open>
  The targeting invariant: a non-null \<open>targetWordId\<close> is the id of an active word
  whose text starts with \<open>inputBuffer\<close>.
\<close>

definition target_valid :: "state \<Rightarrow> bool" where
  "target_valid s \<longleftrightarrow>
     (case targetWordId s of
        None \<Rightarrow> True
      | Some i \<Rightarrow> \<exists>w\<in>set (activeWords s). word_id w = i \<and> prefix (inputBuffer s) (word_text w))"

text \<open>
  The event stream that drives scoring, and the counters it determines: a solve adds
  one to \<open>combo\<close> and then the new \<open>combo\<close> to \<open>score\<close>; a miss and a chain break set
  \<open>combo\<close> to 0. The pair is \<open>(combo, score)\<close>.
\<close>

datatype score_event = Solve | Miss | ChainBreak

fun spec_apply :: "score_event \<Rightarrow> nat \<times> nat \<Rightarrow> nat \<times> nat" where
  "spec_apply Solve (c, sc) = (c + 1, sc + (c + 1))"
| "spec_apply Miss (c, sc) = (0, sc)"
| "spec_apply ChainBreak (c, sc) = (0, sc)"

definition spec_replay :: "score_event list \<Rightarrow> nat \<times> nat \<Rightarrow> nat \<times> nat" where
  "spec_replay evs cs = fold spec_apply evs cs"

text \<open>
  The scoring events one engine event gives rise to. A letter key accepted by the
  handler is a chain break when the extended candidate matches no active word and the
  buffer was not empty, and then a solve when the buffer it commits is the whole text
  of the word it resolves to. A frame that updates the world is one miss for each
  word, active after the frame's spawning, that the fall takes to the ground line.
  Nothing else is a scoring event.
\<close>

text \<open>
  Resolution of a typed character \<open>c\<close> as the specification words it: first the
  extended candidate, then \<open>c\<close> alone; the result is the buffer to commit and the
  word it matches. A chain break is a keystroke whose extended candidate matches no
  active word while the buffer is not empty.
\<close>

definition spec_resolve :: "state \<Rightarrow> string \<Rightarrow> (string \<times> word) option" where
  "spec_resolve s c =
     (case chooseTarget s (inputBuffer s @ c) of
        Some t \<Rightarrow> Some (inputBuffer s @ c, t)
      | None \<Rightarrow> (case chooseTarget s c of Some t \<Rightarrow> Some (c, t) | None \<Rightarrow> None))"

definition chain_break :: "state \<Rightarrow> string \<Rightarrow> bool" where
  "chain_break s c \<longleftrightarrow> chooseTarget s (inputBuffer s @ c) = None \<and> inputBuffer s \<noteq> []"

definition spec_key_events :: "state \<Rightarrow> string \<Rightarrow> score_event list" where
  "spec_key_events s key =
     (if running s \<and> \<not> frozen s \<and> \<not> gameOver s \<and> is_letter_key key
      then (if chain_break s (toLowerCase key) then [ChainBreak] else []) @
           (case spec_resolve s (toLowerCase key) of
              Some (b, t) \<Rightarrow> if b = word_text t then [Solve] else []
            | None \<Rightarrow> [])
      else [])"

definition spec_frame_events :: "env \<Rightarrow> state \<Rightarrow> real \<Rightarrow> score_event list" where
  "spec_frame_events e s now =
     (if running s \<and> \<not> frozen s \<and> \<not> gameOver s
      then (let t0 = (if lastFrameTime s = 0 then now else lastFrameTime s);
                dt = min 0.1 ((now - t0) / 1000);
                s2 = updateEffects now (s\<lparr>lastFrameTime := now\<rparr>);
                s1 = spawn_loop e (s2\<lparr>spawnTimer := spawnTimer s2 + dt\<rparr>);
                dy = speedToPixelsPerSecond e (speedLevel s) * dt
            in map (\<lambda>w. Miss) (filter (\<lambda>w. word_y w + dy \<ge> groundY e) (activeWords s1)))
      else [])"

fun spec_events :: "env \<Rightarrow> state \<Rightarrow> event \<Rightarrow> score_event list" where
  "spec_events e s (KeyDown now key) = spec_key_events s key"
| "spec_events e s (Frame now) = spec_frame_events e s now"
| "spec_events e s SolveDone = []"
| "spec_events e s (StartGame speed acc ws maxWords) = []"
| "spec_events e s GoToSetup = []"

fun is_start :: "event \<Rightarrow> bool" where
  "is_start (StartGame speed acc ws maxWords) = True"
| "is_start ev = False"

text \<open>
  A run of the engine over a list of events, and the scoring events along it.
\<close>

fun run :: "env \<Rightarrow> state \<Rightarrow> event list \<Rightarrow> state" where
  "run e s [] = s"
| "run e s (ev # evs) = run e (step e s ev) evs"

fun spec_run_events :: "env \<Rightarrow> state \<Rightarrow> event list \<Rightarrow> score_event list" where
  "spec_run_events e s [] = []"
| "spec_run_events e s (ev # evs) = spec_events e s ev @ spec_run_events e (step e s ev) evs"





section \<open>Target selection\<close>

lemma chooseTarget_loop_None:
  "chooseTarget_loop p best ws = None \<longleftrightarrow> best = None \<and> (\<forall>w\<in>set ws. \<not> prefix p (word_text w))"
  by (induction ws arbitrary: best) (auto split: option.splits)

lemma first_best_here:
  "prefix p (word_text t) \<Longrightarrow> \<forall>b. best = Some b \<longrightarrow> word_y b < word_y t \<Longrightarrow>
   \<forall>w\<in>set ws. prefix p (word_text w) \<longrightarrow> word_y w \<le> word_y t \<Longrightarrow> first_best p best (t # ws) t"
  unfolding first_best_def by (intro exI[of _ "[]"] exI[of _ ws]) simp

lemma first_best_later:
  assumes "first_best p best' ws t"
    and "prefix p (word_text w) \<longrightarrow> word_y w < word_y t"
    and "\<forall>b. best = Some b \<longrightarrow> word_y b < word_y t"
  shows "first_best p best (w # ws) t"
proof -
  from assms(1) obtain pre post where h: "ws = pre @ t # post" "prefix p (word_text t)"
      "\<forall>w\<in>set pre. prefix p (word_text w) \<longrightarrow> word_y w < word_y t"
      "\<forall>w\<in>set post. prefix p (word_text w) \<longrightarrow> word_y w \<le> word_y t"
    unfolding first_best_def by blast
  have "w # ws = (w # pre) @ t # post"
    using h(1) by simp
  moreover have "\<forall>v\<in>set (w # pre). prefix p (word_text v) \<longrightarrow> word_y v < word_y t"
    using h(3) assms(2) by simp
  ultimately show ?thesis
    unfolding first_best_def using h(2,4) assms(3) by blast
qed

lemma first_best_best: "first_best p (Some b) ws t \<Longrightarrow> word_y b < word_y t"
  unfolding first_best_def by blast

lemma chooseTarget_loop_Some:
  "chooseTarget_loop p best ws = Some t \<Longrightarrow>
     (best = Some t \<and> (\<forall>w\<in>set ws. prefix p (word_text w) \<longrightarrow> word_y w \<le> word_y t)) \<or>
     first_best p best ws t"
proof (induction ws arbitrary: best)
  case Nil
  then show ?case by simp
next
  case (Cons w ws)
  show ?case
  proof (cases "prefix p (word_text w)")
    case False
    with Cons.prems have "chooseTarget_loop p best ws = Some t" by simp
    from Cons.IH[OF this] show ?thesis
    proof
      assume "best = Some t \<and> (\<forall>w\<in>set ws. prefix p (word_text w) \<longrightarrow> word_y w \<le> word_y t)"
      with False show ?thesis by simp
    next
      assume fb: "first_best p best ws t"
      then have "\<forall>b. best = Some b \<longrightarrow> word_y b < word_y t"
        unfolding first_best_def by blast
      with fb False show ?thesis by (blast intro: first_best_later)
    qed
  next
    case True
    show ?thesis
    proof (cases "case best of None \<Rightarrow> True | Some b \<Rightarrow> word_y w > word_y b")
      case replace: True
      with True Cons.prems have "chooseTarget_loop p (Some w) ws = Some t"
        by (simp split: option.splits)
      from Cons.IH[OF this] have "first_best p best (w # ws) t"
      proof
        assume h: "Some w = Some t \<and> (\<forall>w\<in>set ws. prefix p (word_text w) \<longrightarrow> word_y w \<le> word_y t)"
        then have "w = t" by simp
        with h True replace show ?thesis
          by (auto intro!: first_best_here split: option.splits)
      next
        assume fb: "first_best p (Some w) ws t"
        then have "word_y w < word_y t" by (rule first_best_best)
        with fb replace show ?thesis
          by (auto intro!: first_best_later[where best' = "Some w"] split: option.splits)
      qed
      then show ?thesis ..
    next
      case keep: False
      then obtain b where b: "best = Some b" "\<not> word_y w > word_y b"
        by (auto split: option.splits)
      with True Cons.prems have "chooseTarget_loop p best ws = Some t" by simp
      from Cons.IH[OF this] show ?thesis
      proof
        assume "best = Some t \<and> (\<forall>w\<in>set ws. prefix p (word_text w) \<longrightarrow> word_y w \<le> word_y t)"
        with b show ?thesis by auto
      next
        assume fb: "first_best p best ws t"
        then have "word_y b < word_y t" using b(1) by (auto dest: first_best_best)
        with fb b have "first_best p best (w # ws) t"
          by (auto intro!: first_best_later[where best' = "Some b"])
        then show ?thesis ..
      qed
    qed
  qed
qed


lemma chooseTarget_Some_first_best:
  "chooseTarget s p = Some t \<Longrightarrow> first_best p None (activeWords s) t"
  using chooseTarget_loop_Some[of p None "activeWords s" t] by (simp add: chooseTarget_def)

text \<open>
  C1. Whenever some active word starts with the prefix, \<open>chooseTarget\<close> returns an
  active word that starts with the prefix and whose \<open>y\<close> no other matching active
  word exceeds: the chosen target is a matching word nearest to the ground.
\<close>

theorem chooseTarget_nearest_to_ground:
  assumes "\<exists>w\<in>set (activeWords s). prefix p (word_text w)"
  shows "\<exists>t. chooseTarget s p = Some t \<and> t \<in> set (activeWords s) \<and> prefix p (word_text t) \<and>
             (\<forall>w\<in>set (activeWords s). prefix p (word_text w) \<longrightarrow> word_y w \<le> word_y t)"
proof -
  from assms have "chooseTarget s p \<noteq> None"
    by (simp add: chooseTarget_def chooseTarget_loop_None)
  then obtain t where t: "chooseTarget s p = Some t"
    by blast
  from chooseTarget_Some_first_best[OF t] obtain pre post where
      d: "activeWords s = pre @ t # post" "prefix p (word_text t)"
         "\<forall>w\<in>set pre. prefix p (word_text w) \<longrightarrow> word_y w < word_y t"
         "\<forall>w\<in>set post. prefix p (word_text w) \<longrightarrow> word_y w \<le> word_y t"
    unfolding first_best_def by blast
  have "\<forall>w\<in>set (activeWords s). prefix p (word_text w) \<longrightarrow> word_y w \<le> word_y t"
    using d(3,4) by (auto simp: d(1) less_imp_le)
  moreover have "t \<in> set (activeWords s)"
    by (simp add: d(1))
  ultimately show ?thesis
    using t d(2) by blast
qed

theorem chooseTarget_nearest_to_ground_witness:
  "prefix ''ca'' (word_text (mk_word 2 ''car'' 120)) \<and>
   chooseTarget (session [mk_word 1 ''cat'' 300, mk_word 2 ''car'' 120, mk_word 3 ''dog'' 400] [] []) ''ca''
     = Some (mk_word 1 ''cat'' 300) \<and>
   word_y (mk_word 2 ''car'' 120) \<le> word_y (mk_word 1 ''cat'' 300)"
proof -
  let ?s = "session [mk_word 1 ''cat'' 300, mk_word 2 ''car'' 120, mk_word 3 ''dog'' 400] [] []"
  have m: "mk_word 2 ''car'' 120 \<in> set (activeWords ?s)"
      "prefix ''ca'' (word_text (mk_word 2 ''car'' 120))"
    by (simp_all add: session_def mk_word_def)
  then have h: "\<exists>w\<in>set (activeWords ?s). prefix ''ca'' (word_text w)"
    by blast
  have v: "chooseTarget ?s ''ca'' = Some (mk_word 1 ''cat'' 300)"
    by (simp add: chooseTarget_def session_def mk_word_def)
  from chooseTarget_nearest_to_ground[OF h] v m
  have "word_y (mk_word 2 ''car'' 120) \<le> word_y (mk_word 1 ''cat'' 300)"
    by auto
  with m(2) v show ?thesis
    by blast
qed

text \<open>
  C10. The word \<open>chooseTarget\<close> returns matches the prefix and no matching active word
  lies lower on the screen (its \<open>y\<close> is the largest among the matching words); the
  matching words before it in \<open>activeWords\<close> lie strictly higher, so among the matching
  words that share the largest \<open>y\<close> it is the one occurring first in the array. With
  the ids increasing along the array, as \<open>spawnWord\<close> leaves them, that is the tied word
  with the lowest id.
\<close>

theorem chooseTarget_tie_earliest:
  assumes "chooseTarget s p = Some t"
  shows "(\<exists>pre post. activeWords s = pre @ t # post \<and>
            (\<forall>w\<in>set pre. \<not> (prefix p (word_text w) \<and> word_y w \<ge> word_y t)) \<and>
            (\<forall>w\<in>set post. prefix p (word_text w) \<longrightarrow> word_y w \<le> word_y t)) \<and>
         prefix p (word_text t) \<and>
         (\<forall>w\<in>set (activeWords s). prefix p (word_text w) \<longrightarrow> word_y w \<le> word_y t) \<and>
         (ids_increasing s \<longrightarrow>
            (\<forall>w\<in>set (activeWords s). prefix p (word_text w) \<and> word_y w = word_y t
                 \<longrightarrow> word_id t \<le> word_id w))"
proof -
  from chooseTarget_Some_first_best[OF assms] obtain pre post where
      d: "activeWords s = pre @ t # post"
         "\<forall>w\<in>set pre. prefix p (word_text w) \<longrightarrow> word_y w < word_y t"
         "\<forall>w\<in>set post. prefix p (word_text w) \<longrightarrow> word_y w \<le> word_y t"
         "prefix p (word_text t)"
    unfolding first_best_def by blast
  have first: "\<forall>w\<in>set pre. \<not> (prefix p (word_text w) \<and> word_y w \<ge> word_y t)"
    using d(2) by fastforce
  have top: "\<forall>w\<in>set (activeWords s). prefix p (word_text w) \<longrightarrow> word_y w \<le> word_y t"
    using d(2,3) by (auto simp: d(1) less_imp_le)
  have low: "word_id t \<le> word_id w"
    if inc: "ids_increasing s" and w: "w \<in> set (activeWords s)"
      and m: "prefix p (word_text w)" "word_y w = word_y t" for w
  proof -
    from w first m have "w = t \<or> w \<in> set post"
      by (auto simp: d(1))
    moreover have "\<forall>v\<in>set post. word_id t < word_id v"
      using inc by (simp add: ids_increasing_def d(1) sorted_wrt_append)
    ultimately show ?thesis
      by auto
  qed
  from d(1,3,4) first top low show ?thesis
    by blast
qed

theorem chooseTarget_tie_earliest_witness:
  "chooseTarget (session [mk_word 1 ''cat'' 100, mk_word 2 ''cab'' 300, mk_word 3 ''car'' 300] [] []) ''ca''
     = Some (mk_word 2 ''cab'' 300) \<and>
   word_y (mk_word 1 ''cat'' 100) \<le> word_y (mk_word 2 ''cab'' 300) \<and>
   word_y (mk_word 3 ''car'' 300) = word_y (mk_word 2 ''cab'' 300) \<and>
   word_id (mk_word 2 ''cab'' 300) \<le> word_id (mk_word 3 ''car'' 300)"
proof -
  let ?s = "session [mk_word 1 ''cat'' 100, mk_word 2 ''cab'' 300, mk_word 3 ''car'' 300] [] []"
  have v: "chooseTarget ?s ''ca'' = Some (mk_word 2 ''cab'' 300)"
    by (simp add: chooseTarget_def session_def mk_word_def)
  have i: "ids_increasing ?s"
    by (simp add: ids_increasing_def session_def mk_word_def)
  have m: "mk_word 3 ''car'' 300 \<in> set (activeWords ?s)"
      "prefix ''ca'' (word_text (mk_word 3 ''car'' 300))"
      "word_y (mk_word 3 ''car'' 300) = word_y (mk_word 2 ''cab'' 300)"
    by (simp_all add: session_def mk_word_def)
  have c: "mk_word 1 ''cat'' 100 \<in> set (activeWords ?s)"
      "prefix ''ca'' (word_text (mk_word 1 ''cat'' 100))"
    by (simp_all add: session_def mk_word_def)
  note T = chooseTarget_tie_earliest[OF v]
  from T i m have "word_id (mk_word 2 ''cab'' 300) \<le> word_id (mk_word 3 ''car'' 300)"
    by blast
  moreover from T c have "word_y (mk_word 1 ''cat'' 100) \<le> word_y (mk_word 2 ''cab'' 300)"
    by blast
  ultimately show ?thesis
    using v m(3) by blast
qed

section \<open>Completion check\<close>

text \<open>
  C5. \<open>maybeFinishGame\<close> ends the game (\<open>running = false\<close>, \<open>gameOver = true\<close>, the
  final score shown) when the pending, active and missed pools are all empty, and
  changes nothing when one of them is not. It never touches \<open>score\<close> or \<open>combo\<close>:
  it writes only the two phase flags and the status line, final score and result box
  of the page. Calling it again gives the same state.
\<close>

theorem maybeFinishGame_completion:
  "(pendingWords s = [] \<and> activeWords s = [] \<and> missedWords s = []
      \<longrightarrow> \<not> running (maybeFinishGame s) \<and> gameOver (maybeFinishGame s) \<and>
          finalScoreEl (maybeFinishGame s) = decimal (score s)) \<and>
   (\<not> (pendingWords s = [] \<and> activeWords s = [] \<and> missedWords s = [])
      \<longrightarrow> maybeFinishGame s = s) \<and>
   score (maybeFinishGame s) = score s \<and> combo (maybeFinishGame s) = combo s \<and>
   maybeFinishGame s =
     s\<lparr>running := running (maybeFinishGame s), gameOver := gameOver (maybeFinishGame s),
       statusEl := statusEl (maybeFinishGame s), finalScoreEl := finalScoreEl (maybeFinishGame s),
       resultBoxHidden := resultBoxHidden (maybeFinishGame s)\<rparr> \<and>
   maybeFinishGame (maybeFinishGame s) = maybeFinishGame s"
  by (simp add: maybeFinishGame_def)

theorem maybeFinishGame_completion_witness:
  "\<not> running (maybeFinishGame ((session [] [] [])\<lparr>score := 3, combo := 2\<rparr>)) \<and>
   gameOver (maybeFinishGame ((session [] [] [])\<lparr>score := 3, combo := 2\<rparr>)) \<and>
   finalScoreEl (maybeFinishGame ((session [] [] [])\<lparr>score := 3, combo := 2\<rparr>)) = ''3'' \<and>
   maybeFinishGame (session [] [] [''cat'']) = session [] [] [''cat'']"
proof -
  let ?s = "(session [] [] [])\<lparr>score := 3, combo := 2\<rparr>"
  have e: "pendingWords ?s = [] \<and> activeWords ?s = [] \<and> missedWords ?s = []"
    by (simp add: session_def)
  have n: "\<not> (pendingWords (session [] [] [''cat'']) = [] \<and> activeWords (session [] [] [''cat'']) = []
              \<and> missedWords (session [] [] [''cat'']) = [])"
    by (simp add: session_def)
  have d: "decimal (score ?s) = ''3''"
    by (simp add: decimal.simps digit_char_def)
  from maybeFinishGame_completion[of ?s] e d maybeFinishGame_completion[of "session [] [] [''cat'']"] n
  show ?thesis
    by simp
qed

section \<open>Spawn position\<close>




section \<open>Spawning\<close>






lemma ids_increasing_push:
  assumes "ids_increasing s"
    and "activeWords s' = activeWords s @ [w]" and "word_id w = nextWordId s"
    and "nextWordId s' = nextWordId s + 1"
  shows "ids_increasing s'"
  using assms by (auto simp: ids_increasing_def sorted_wrt_append less_Suc_eq)

section \<open>What each operation leaves alone\<close>

lemma chooseTarget_Some_mem:
  "chooseTarget s p = Some t \<Longrightarrow> t \<in> set (activeWords s) \<and> prefix p (word_text t)"
  by (drule chooseTarget_Some_first_best) (auto simp: first_best_def)

lemma chooseTarget_cong:
  "activeWords s' = activeWords s \<Longrightarrow> chooseTarget s' p = chooseTarget s p"
  by (simp add: chooseTarget_def)

lemma spawnWord_keeps:
  "running (snd (spawnWord e s)) = running s"
  "frozen (snd (spawnWord e s)) = frozen s"
  "gameOver (snd (spawnWord e s)) = gameOver s"
  "score (snd (spawnWord e s)) = score s"
  "combo (snd (spawnWord e s)) = combo s"
  "inputBuffer (snd (spawnWord e s)) = inputBuffer s"
  "targetWordId (snd (spawnWord e s)) = targetWordId s"
  "spawnTimer (snd (spawnWord e s)) = spawnTimer s"
  "speedLevel (snd (spawnWord e s)) = speedLevel s"
  by (simp_all add: spawnWord_def Let_def split: list.split prod.split)

lemma spawnWord_active:
  "(activeWords (snd (spawnWord e s)) = activeWords s \<and> nextWordId (snd (spawnWord e s)) = nextWordId s) \<or>
   (\<exists>w. activeWords (snd (spawnWord e s)) = activeWords s @ [w] \<and> word_id w = nextWordId s \<and>
        nextWordId (snd (spawnWord e s)) = nextWordId s + 1)"
  by (simp add: spawnWord_def Let_def split: list.split prod.split)

lemma spawn_loop_preserves:
  fixes P :: "state \<Rightarrow> bool"
  assumes "P s"
    and "\<And>s. P s \<Longrightarrow> P (snd (spawnWord e s))"
    and "\<And>s t. P s \<Longrightarrow> P (s\<lparr>spawnTimer := t\<rparr>)"
  shows "P (spawn_loop e s)"
  using assms
proof (induction e s rule: spawn_loop.induct)
  case (1 e s)
  show ?case
  proof (cases "spawnTimer s \<ge> 1")
    case True
    have "P (s\<lparr>spawnTimer := spawnTimer s - 1\<rparr>)"
      using "1.prems"(1) by (rule "1.prems"(3))
    then have "P (snd (spawnWord e (s\<lparr>spawnTimer := spawnTimer s - 1\<rparr>)))"
      by (rule "1.prems"(2))
    from "1.IH"[OF True this "1.prems"(2,3)] True show ?thesis
      by (simp add: spawn_loop.simps[of e s])
  next
    case False
    with "1.prems"(1) show ?thesis
      by (simp add: spawn_loop.simps[of e s])
  qed
qed

lemma spawn_loop_keeps:
  "running (spawn_loop e s) = running s"
  "frozen (spawn_loop e s) = frozen s"
  "gameOver (spawn_loop e s) = gameOver s"
  "score (spawn_loop e s) = score s"
  "combo (spawn_loop e s) = combo s"
  "inputBuffer (spawn_loop e s) = inputBuffer s"
  "targetWordId (spawn_loop e s) = targetWordId s"
  "speedLevel (spawn_loop e s) = speedLevel s"
proof -
  define P where "P = (\<lambda>t::state. running t = running s \<and> frozen t = frozen s \<and> gameOver t = gameOver s \<and>
      score t = score s \<and> combo t = combo s \<and> inputBuffer t = inputBuffer s \<and>
      targetWordId t = targetWordId s \<and> speedLevel t = speedLevel s)"
  have "P (spawn_loop e s)"
    by (rule spawn_loop_preserves) (simp_all add: P_def spawnWord_keeps)
  then show "running (spawn_loop e s) = running s"
  "frozen (spawn_loop e s) = frozen s"
  "gameOver (spawn_loop e s) = gameOver s"
  "score (spawn_loop e s) = score s"
  "combo (spawn_loop e s) = combo s"
  "inputBuffer (spawn_loop e s) = inputBuffer s"
  "targetWordId (spawn_loop e s) = targetWordId s"
  "speedLevel (spawn_loop e s) = speedLevel s"
    by (simp_all add: P_def)
qed

lemma onWordMissed_keeps:
  "running (onWordMissed s w) = running s"
  "frozen (onWordMissed s w) = frozen s"
  "gameOver (onWordMissed s w) = gameOver s"
  "score (onWordMissed s w) = score s"
  "combo (onWordMissed s w) = 0"
  "activeWords (onWordMissed s w) = activeWords s"
  "pendingWords (onWordMissed s w) = pendingWords s"
  "nextWordId (onWordMissed s w) = nextWordId s"
  "missedWords (onWordMissed s w) = missedWords s @ [word_text w]"
  by (simp_all add: onWordMissed_def updateHUD_def clearInputTracking_def Let_def)

lemma fall_loop_survivors:
  "snd (fall_loop g dy s surv ws) =
     surv @ filter (\<lambda>w. \<not> word_y w \<ge> g) (map (\<lambda>w. w\<lparr>word_y := word_y w + dy\<rparr>) ws)"
  by (induction ws arbitrary: s surv) (simp_all add: Let_def)

lemma fall_loop_keeps:
  "running (fst (fall_loop g dy s surv ws)) = running s"
  "frozen (fst (fall_loop g dy s surv ws)) = frozen s"
  "gameOver (fst (fall_loop g dy s surv ws)) = gameOver s"
  "score (fst (fall_loop g dy s surv ws)) = score s"
  "pendingWords (fst (fall_loop g dy s surv ws)) = pendingWords s"
  "nextWordId (fst (fall_loop g dy s surv ws)) = nextWordId s"
  by (induction ws arbitrary: s surv) (simp_all add: Let_def onWordMissed_keeps)

lemma maybeFinishGame_keeps:
  "frozen (maybeFinishGame s) = frozen s"
  "inputBuffer (maybeFinishGame s) = inputBuffer s"
  "targetWordId (maybeFinishGame s) = targetWordId s"
  "activeWords (maybeFinishGame s) = activeWords s"
  "nextWordId (maybeFinishGame s) = nextWordId s"
  by (simp_all add: maybeFinishGame_def)

section \<open>The keystroke handler, case by case\<close>

lemma handleTypedCharacter_unfold:
  assumes "running s" and "\<not> frozen s" and "\<not> gameOver s"
  shows "handleTypedCharacter now s ch =
    (let c = toLowerCase ch;
         s1 = (if chain_break s c then updateHUD (s\<lparr>combo := 0\<rparr>) else s)
     in case spec_resolve s c of
          None \<Rightarrow> clearInputTracking s1
        | Some (b, t) \<Rightarrow>
            if b = word_text t
            then (case removeActiveWordById (s1\<lparr>inputBuffer := b, targetWordId := Some (word_id t)\<rparr>) (word_id t) of
                    (solved, s3) \<Rightarrow>
                      (case solved of
                         None \<Rightarrow> clearInputTracking s3
                       | Some w \<Rightarrow> onWordSolved_begin now (clearInputTracking s3) w))
            else s1\<lparr>inputBuffer := b, targetWordId := Some (word_id t)\<rparr>)"
proof (cases "chooseTarget s (inputBuffer s @ toLowerCase ch)")
  case None
  note ext = this
  show ?thesis
  proof (cases "chooseTarget s (toLowerCase ch)")
    case None
    show ?thesis
      by (simp add: handleTypedCharacter_def spec_resolve_def chain_break_def Let_def assms ext None)
  next
    case (Some t)
    show ?thesis
    proof (cases "toLowerCase ch = word_text t")
      case False
      show ?thesis
        by (cases "inputBuffer s = []")
          (simp_all add: handleTypedCharacter_def spec_resolve_def chain_break_def Let_def assms ext Some False)
    next
      case True
      have ext': "chooseTarget s (inputBuffer s @ word_text t) = None"
        and re': "chooseTarget s (word_text t) = Some t"
        using ext Some by (simp_all add: True)
      show ?thesis
        by (cases "inputBuffer s = []")
          (simp_all add: handleTypedCharacter_def spec_resolve_def chain_break_def Let_def assms True ext' re')
    qed
  qed
next
  case (Some t)
  show ?thesis
  proof (cases "inputBuffer s @ toLowerCase ch = word_text t")
    case False
    show ?thesis
      by (simp add: handleTypedCharacter_def spec_resolve_def chain_break_def Let_def assms Some False)
  next
    case True
    have ext': "chooseTarget s (word_text t) = Some t"
      using Some by (simp add: True)
    show ?thesis
      by (simp add: handleTypedCharacter_def spec_resolve_def chain_break_def Let_def assms True ext')
  qed
qed

lemma findIndex_None: "findIndex P xs = None \<longleftrightarrow> (\<forall>x\<in>set xs. \<not> P x)"
  by (induction xs) (auto split: option.splits)

lemma findIndex_Some:
  "findIndex P xs = Some k \<Longrightarrow>
     k < length xs \<and> P (xs ! k) \<and> (\<forall>v\<in>set (take k xs). \<not> P v)"
proof (induction xs arbitrary: k)
  case Nil
  then show ?case by simp
next
  case (Cons a as)
  show ?case
  proof (cases "P a")
    case True
    with Cons.prems show ?thesis by simp
  next
    case False
    with Cons.prems obtain k' where k': "findIndex P as = Some k'" "k = Suc k'"
      by (auto split: option.splits)
    from Cons.IH[OF k'(1)] False show ?thesis
      by (simp add: k'(2))
  qed
qed

text \<open>
  The state a keystroke works on after a possible chain break.
\<close>

lemma handleTypedCharacter_no_match:
  assumes "running s" and "\<not> frozen s" and "\<not> gameOver s"
    and "spec_resolve s (toLowerCase ch) = None"
  shows "handleTypedCharacter now s ch =
           clearInputTracking (if chain_break s (toLowerCase ch) then updateHUD (s\<lparr>combo := 0\<rparr>) else s)"
  by (simp add: handleTypedCharacter_unfold[OF assms(1-3)] Let_def assms(4))

lemma handleTypedCharacter_commit:
  assumes "running s" and "\<not> frozen s" and "\<not> gameOver s"
    and "spec_resolve s (toLowerCase ch) = Some (b, t)" and "b \<noteq> word_text t"
  shows "handleTypedCharacter now s ch =
           (if chain_break s (toLowerCase ch) then updateHUD (s\<lparr>combo := 0\<rparr>) else s)
             \<lparr>inputBuffer := b, targetWordId := Some (word_id t)\<rparr>"
  by (simp add: handleTypedCharacter_unfold[OF assms(1-3)] Let_def assms(4,5))

lemma spec_resolve_Some:
  "spec_resolve s c = Some (b, t) \<Longrightarrow> chooseTarget s b = Some t \<and> (b = inputBuffer s @ c \<or> b = c)"
  by (auto simp: spec_resolve_def split: option.splits)

lemma handleTypedCharacter_solve:
  assumes "running s" and "\<not> frozen s" and "\<not> gameOver s"
    and "spec_resolve s (toLowerCase ch) = Some (b, t)" and "b = word_text t"
  shows "\<exists>pre w post.
           activeWords s = pre @ w # post \<and> word_id w = word_id t \<and>
           (\<forall>v\<in>set pre. word_id v \<noteq> word_id t) \<and>
           handleTypedCharacter now s ch =
             onWordSolved_begin now
               ((if chain_break s (toLowerCase ch) then updateHUD (s\<lparr>combo := 0\<rparr>) else s)
                  \<lparr>activeWords := pre @ post, inputBuffer := [], targetWordId := None\<rparr>) w"
proof -
  define s1 where "s1 = (if chain_break s (toLowerCase ch) then updateHUD (s\<lparr>combo := 0\<rparr>) else s)"
  have a1: "activeWords s1 = activeWords s"
    by (simp add: s1_def updateHUD_def)
  from spec_resolve_Some[OF assms(4)] have "t \<in> set (activeWords s)"
    by (auto dest: chooseTarget_Some_mem)
  then have "findIndex (\<lambda>w. word_id w = word_id t) (activeWords s) \<noteq> None"
    by (auto simp: findIndex_None)
  then obtain k where k: "findIndex (\<lambda>w. word_id w = word_id t) (activeWords s) = Some k"
    by blast
  define pre where "pre = take k (activeWords s)"
  define post where "post = drop (Suc k) (activeWords s)"
  define w where "w = activeWords s ! k"
  from findIndex_Some[OF k] have kl: "k < length (activeWords s)" and wi: "word_id w = word_id t"
    and before: "\<forall>v\<in>set pre. word_id v \<noteq> word_id t"
    by (simp_all add: w_def pre_def)
  have split: "activeWords s = pre @ w # post"
    using kl by (simp add: pre_def post_def w_def id_take_nth_drop)
  have "handleTypedCharacter now s ch =
          onWordSolved_begin now (s1\<lparr>activeWords := pre @ post, inputBuffer := [], targetWordId := None\<rparr>) w"
    by (simp add: handleTypedCharacter_unfold[OF assms(1-3)] Let_def assms(4) assms(5)[symmetric]
        s1_def[symmetric] removeActiveWordById_def a1 k clearInputTracking_def
        pre_def post_def w_def)
  with split wi before show ?thesis
    unfolding s1_def by blast
qed

section \<open>The targeting invariant\<close>

lemma target_valid_iff:
  "target_valid s \<longleftrightarrow>
     (\<forall>i. targetWordId s = Some i \<longrightarrow>
        (\<exists>w\<in>set (activeWords s). word_id w = i \<and> prefix (inputBuffer s) (word_text w)))"
  by (simp add: target_valid_def split: option.splits)

lemma target_valid_None: "targetWordId s = None \<Longrightarrow> target_valid s"
  by (simp add: target_valid_iff)

lemma target_valid_chosen:
  assumes "chooseTarget s p = Some t" and "activeWords s' = activeWords s"
    and "inputBuffer s' = p" and "targetWordId s' = Some (word_id t)"
  shows "target_valid s'"
  using chooseTarget_Some_mem[OF assms(1)] assms(2-4) by (auto simp: target_valid_iff)

lemma target_valid_cong:
  assumes "target_valid s" and "activeWords s' = activeWords s"
    and "inputBuffer s' = inputBuffer s" and "targetWordId s' = targetWordId s"
  shows "target_valid s'"
  using assms by (auto simp: target_valid_iff)

lemma handleTypedCharacter_target_valid:
  assumes "target_valid s"
  shows "target_valid (handleTypedCharacter now s ch)"
proof (cases "running s \<and> \<not> frozen s \<and> \<not> gameOver s")
  case False
  with assms show ?thesis
    by (auto simp: handleTypedCharacter_def)
next
  case True
  then have g: "running s" "\<not> frozen s" "\<not> gameOver s"
    by simp_all
  define s1 where "s1 = (if chain_break s (toLowerCase ch) then updateHUD (s\<lparr>combo := 0\<rparr>) else s)"
  have a1: "activeWords s1 = activeWords s"
    by (simp add: s1_def updateHUD_def)
  show ?thesis
  proof (cases "spec_resolve s (toLowerCase ch)")
    case None
    show ?thesis
      by (simp add: handleTypedCharacter_no_match[OF g None] clearInputTracking_def target_valid_None)
  next
    case (Some bt)
    obtain b t where bt: "spec_resolve s (toLowerCase ch) = Some (b, t)"
      using Some by (cases bt) simp
    show ?thesis
    proof (cases "b = word_text t")
      case True
      from handleTypedCharacter_solve[OF g bt True, of now]
      have "targetWordId (handleTypedCharacter now s ch) = None"
        by (auto simp: onWordSolved_begin_def animateDissolve_def animateScoreGain_def
            updateHUD_def Let_def)
      then show ?thesis
        by (rule target_valid_None)
    next
      case False
      have "chooseTarget s b = Some t"
        using spec_resolve_Some[OF bt] by simp
      then show ?thesis
        by (rule target_valid_chosen)
          (simp_all add: handleTypedCharacter_commit[OF g bt False] s1_def[symmetric] a1)
    qed
  qed
qed

lemma handleControlKey_target_valid:
  assumes "target_valid s"
  shows "target_valid (handleControlKey s key)"
proof -
  have "target_valid (s\<lparr>inputBuffer := b, targetWordId := Some (word_id t)\<rparr>)"
    if "chooseTarget (s\<lparr>inputBuffer := b\<rparr>) b = Some t" for b t
    using that by (rule target_valid_chosen) simp_all
  with assms show ?thesis
    by (auto simp: handleControlKey_def Let_def clearInputTracking_def target_valid_None
        split: option.splits)
qed

lemma keydown_target_valid:
  "target_valid s \<Longrightarrow> target_valid (keydown now s key)"
  by (simp add: keydown_def handleTypedCharacter_target_valid handleControlKey_target_valid)

lemma spawnWord_target_valid:
  assumes "target_valid s"
  shows "target_valid (snd (spawnWord e s))"
  using assms spawnWord_active[of e s]
  by (auto simp: target_valid_iff spawnWord_keeps split: option.splits)

lemma spawn_loop_target_valid:
  assumes "target_valid s"
  shows "target_valid (spawn_loop e s)"
proof (rule spawn_loop_preserves[where P = target_valid])
  show "target_valid s"
    by (rule assms)
  show "target_valid (snd (spawnWord e u))" if "target_valid u" for u
    using that by (rule spawnWord_target_valid)
  show "target_valid (u\<lparr>spawnTimer := t\<rparr>)" if "target_valid u" for u t
    using that by (simp add: target_valid_iff)
qed

text \<open>
  Through the fall loop: a target that is still set names a word among the survivors
  collected so far or among the words still to be visited.
\<close>

lemma fall_loop_target:
  assumes "fall_loop g dy s surv ws = (s', surv')"
    and "\<forall>i. targetWordId s = Some i \<longrightarrow>
           (\<exists>w\<in>set surv \<union> set ws. word_id w = i \<and> prefix (inputBuffer s) (word_text w))"
  shows "\<forall>i. targetWordId s' = Some i \<longrightarrow>
           (\<exists>w\<in>set surv'. word_id w = i \<and> prefix (inputBuffer s') (word_text w))"
  using assms
proof (induction ws arbitrary: s surv)
  case Nil
  then show ?case by simp
next
  case (Cons w ws)
  define w1 where "w1 = w\<lparr>word_y := word_y w + dy\<rparr>"
  have w1: "word_id w1 = word_id w" "word_text w1 = word_text w"
    by (simp_all add: w1_def)
  show ?case
  proof (cases "word_y w1 \<ge> g")
    case True
    with Cons.prems(1) have run: "fall_loop g dy (onWordMissed s w1) surv ws = (s', surv')"
      by (simp add: w1_def Let_def)
    have "\<forall>i. targetWordId (onWordMissed s w1) = Some i \<longrightarrow>
            (\<exists>v\<in>set surv \<union> set ws. word_id v = i \<and>
               prefix (inputBuffer (onWordMissed s w1)) (word_text v))"
      using Cons.prems(2) w1
      by (auto simp: onWordMissed_def updateHUD_def clearInputTracking_def Let_def
          split: option.splits)
    from Cons.IH[OF run this] show ?thesis .
  next
    case False
    with Cons.prems(1) have run: "fall_loop g dy s (surv @ [w1]) ws = (s', surv')"
      by (simp add: w1_def Let_def)
    have "\<forall>i. targetWordId s = Some i \<longrightarrow>
            (\<exists>v\<in>set (surv @ [w1]) \<union> set ws. word_id v = i \<and>
               prefix (inputBuffer s) (word_text v))"
      using Cons.prems(2) w1 by (auto split: option.splits)
    from Cons.IH[OF run this] show ?thesis .
  qed
qed

lemma updateWorld_target_valid:
  assumes "target_valid s"
  shows "target_valid (updateWorld e s dt)"
proof -
  define s1 where "s1 = spawn_loop e (s\<lparr>spawnTimer := spawnTimer s + dt\<rparr>)"
  define r where "r = fall_loop (groundY e) (speedToPixelsPerSecond e (speedLevel s1) * dt) s1 [] (activeWords s1)"
  have "target_valid (s\<lparr>spawnTimer := spawnTimer s + dt\<rparr>)"
    using assms by (simp add: target_valid_iff)
  then have "target_valid s1"
    unfolding s1_def by (rule spawn_loop_target_valid)
  then have "\<forall>i. targetWordId s1 = Some i \<longrightarrow>
      (\<exists>w\<in>set [] \<union> set (activeWords s1). word_id w = i \<and> prefix (inputBuffer s1) (word_text w))"
    by (simp add: target_valid_iff)
  with fall_loop_target[of "groundY e" _ s1 "[]" "activeWords s1" "fst r" "snd r"]
  have "target_valid ((fst r)\<lparr>activeWords := snd r\<rparr>)"
    by (simp add: r_def target_valid_iff)
  then have "target_valid (maybeFinishGame ((fst r)\<lparr>activeWords := snd r\<rparr>))"
    by (rule target_valid_cong) (simp_all add: maybeFinishGame_keeps)
  then show ?thesis
    by (simp add: updateWorld_def Let_def s1_def r_def split_beta)
qed

lemma loop_target_valid:
  assumes "target_valid s"
  shows "target_valid (loop e s now)"
proof -
  have "target_valid (updateEffects now (s\<lparr>lastFrameTime := t\<rparr>))" for t
    using assms by (simp add: target_valid_iff updateEffects_def)
  then show ?thesis
    by (simp add: loop_def Let_def updateWorld_target_valid)
qed

lemma startGame_unfold:
  "\<exists>s3. startGame e s speed acc ws maxWords = snd (spawnWord e s3) \<and>
        running s3 \<and> \<not> frozen s3 \<and> \<not> gameOver s3 \<and> score s3 = 0 \<and> combo s3 = 0 \<and>
        inputBuffer s3 = [] \<and> targetWordId s3 = None \<and> activeWords s3 = [] \<and>
        nextWordId s3 = 1"
  unfolding startGame_def Let_def split_beta
  by (rule exI, rule conjI, rule refl) (simp add: resetRuntimeState_def updateHUD_def)

lemma startGame_target_valid: "target_valid (startGame e s speed acc ws maxWords)"
proof -
  obtain s3 where "startGame e s speed acc ws maxWords = snd (spawnWord e s3)"
      "targetWordId s3 = None"
    using startGame_unfold[of e s speed acc ws maxWords] by blast
  then show ?thesis
    by (simp add: spawnWord_target_valid target_valid_None)
qed

lemma step_target_valid:
  "target_valid s \<Longrightarrow> target_valid (step e s ev)"
proof (cases ev)
  case (KeyDown now key)
  assume "target_valid s"
  then show ?thesis
    by (simp add: KeyDown keydown_target_valid)
next
  case (Frame now)
  assume "target_valid s"
  then show ?thesis
    by (simp add: Frame loop_target_valid)
next
  case SolveDone
  assume "target_valid s"
  then have "target_valid (s\<lparr>frozen := False, statusEl := ''Running''\<rparr>)"
    by (simp add: target_valid_iff)
  then show ?thesis
    unfolding SolveDone step.simps onWordSolved_resume_def
    by (rule target_valid_cong) (simp_all add: maybeFinishGame_keeps)
next
  case (StartGame speed acc ws maxWords)
  show ?thesis
    by (simp add: StartGame startGame_target_valid)
next
  case GoToSetup
  show ?thesis
    by (simp add: GoToSetup goToSetup_def clearInputTracking_def target_valid_iff)
qed

text \<open>
  A step that takes the targeted word out of the active set leaves no target.
\<close>

lemma keydown_active_or_cleared:
  "activeWords (keydown now s key) = activeWords s \<or> targetWordId (keydown now s key) = None"
proof (cases "running s \<and> \<not> frozen s \<and> \<not> gameOver s \<and> is_letter_key key")
  case False
  have c: "activeWords (handleControlKey s key) = activeWords s"
    by (simp add: handleControlKey_def Let_def clearInputTracking_def split: option.splits)
  have t: "handleTypedCharacter now s k = s" if "\<not> running s \<or> frozen s \<or> gameOver s" for k
    using that by (simp add: handleTypedCharacter_def)
  from False have "keydown now s key = s \<or> keydown now s key = handleControlKey s key"
    by (auto simp: keydown_def t)
  then have "activeWords (keydown now s key) = activeWords s"
    by (auto simp: c)
  then show ?thesis ..
next
  case True
  then have g: "running s" "\<not> frozen s" "\<not> gameOver s" and k: "keydown now s key = handleTypedCharacter now s key"
    by (simp_all add: keydown_def)
  show ?thesis
  proof (cases "spec_resolve s (toLowerCase key)")
    case None
    show ?thesis
      by (simp add: k handleTypedCharacter_no_match[OF g None] clearInputTracking_def updateHUD_def)
  next
    case (Some bt)
    obtain b t where bt: "spec_resolve s (toLowerCase key) = Some (b, t)"
      using Some by (cases bt) simp
    show ?thesis
    proof (cases "b = word_text t")
      case True
      from handleTypedCharacter_solve[OF g bt True, of now]
      have "targetWordId (handleTypedCharacter now s key) = None"
        by (auto simp: onWordSolved_begin_def animateDissolve_def animateScoreGain_def
            updateHUD_def Let_def)
      then show ?thesis
        by (simp add: k)
    next
      case False
      show ?thesis
        by (simp add: k handleTypedCharacter_commit[OF g bt False] updateHUD_def)
    qed
  qed
qed

lemma fall_loop_target_kept:
  assumes "fall_loop g dy s surv ws = (s', surv')"
  shows "targetWordId s' = None \<or>
         (targetWordId s' = targetWordId s \<and>
          (\<forall>w\<in>set ws. targetWordId s = Some (word_id w) \<longrightarrow> (\<exists>v\<in>set surv'. word_id v = word_id w)))"
  using assms
proof (induction ws arbitrary: s surv)
  case Nil
  then show ?case by simp
next
  case (Cons w ws)
  define w1 where "w1 = w\<lparr>word_y := word_y w + dy\<rparr>"
  have w1: "word_id w1 = word_id w"
    by (simp add: w1_def)
  show ?case
  proof (cases "word_y w1 \<ge> g")
    case True
    with Cons.prems have run: "fall_loop g dy (onWordMissed s w1) surv ws = (s', surv')"
      by (simp add: w1_def Let_def)
    have m: "targetWordId (onWordMissed s w1) =
               (if targetWordId s = Some (word_id w) then None else targetWordId s)"
      by (simp add: onWordMissed_def updateHUD_def clearInputTracking_def Let_def w1)
    from Cons.IH[OF run] show ?thesis
      by (auto simp: m split: if_splits)
  next
    case False
    with Cons.prems have run: "fall_loop g dy s (surv @ [w1]) ws = (s', surv')"
      by (simp add: w1_def Let_def)
    have "surv' = (surv @ [w1]) @ filter (\<lambda>w. \<not> word_y w \<ge> g) (map (\<lambda>w. w\<lparr>word_y := word_y w + dy\<rparr>) ws)"
      using fall_loop_survivors[of g dy s "surv @ [w1]" ws] run by simp
    then have "w1 \<in> set surv'"
      by simp
    with Cons.IH[OF run] w1 show ?thesis
      by auto
  qed
qed

lemma spawn_loop_active_grows: "set (activeWords s) \<subseteq> set (activeWords (spawn_loop e s))"
proof (rule spawn_loop_preserves[where P = "\<lambda>u. set (activeWords s) \<subseteq> set (activeWords u)"])
  show "set (activeWords s) \<subseteq> set (activeWords s)"
    by simp
  show "set (activeWords s) \<subseteq> set (activeWords (snd (spawnWord e u)))"
    if "set (activeWords s) \<subseteq> set (activeWords u)" for u
    using that spawnWord_active[of e u] by auto
  show "set (activeWords s) \<subseteq> set (activeWords (u\<lparr>spawnTimer := t\<rparr>))"
    if "set (activeWords s) \<subseteq> set (activeWords u)" for u t
    using that by simp
qed

lemma updateWorld_target_kept:
  "targetWordId (updateWorld e s dt) = None \<or>
   (targetWordId (updateWorld e s dt) = targetWordId s \<and>
    (\<forall>w\<in>set (activeWords s). targetWordId s = Some (word_id w) \<longrightarrow>
        (\<exists>v\<in>set (activeWords (updateWorld e s dt)). word_id v = word_id w)))"
proof -
  define s1 where "s1 = spawn_loop e (s\<lparr>spawnTimer := spawnTimer s + dt\<rparr>)"
  define r where "r = fall_loop (groundY e) (speedToPixelsPerSecond e (speedLevel s1) * dt) s1 [] (activeWords s1)"
  have t1: "targetWordId s1 = targetWordId s"
    by (simp add: s1_def spawn_loop_keeps)
  have sub: "set (activeWords s) \<subseteq> set (activeWords s1)"
    using spawn_loop_active_grows[of "s\<lparr>spawnTimer := spawnTimer s + dt\<rparr>" e] by (simp add: s1_def)
  have u: "updateWorld e s dt = maybeFinishGame ((fst r)\<lparr>activeWords := snd r\<rparr>)"
    by (simp add: updateWorld_def Let_def s1_def r_def split_beta)
  have "fall_loop (groundY e) (speedToPixelsPerSecond e (speedLevel s1) * dt) s1 [] (activeWords s1) = (fst r, snd r)"
    by (simp add: r_def)
  from fall_loop_target_kept[OF this] sub show ?thesis
    by (auto simp: u maybeFinishGame_keeps t1)
qed

lemma step_removed_clears:
  assumes "targetWordId s = Some i" and "\<exists>w\<in>set (activeWords s). word_id w = i"
    and "\<forall>w\<in>set (activeWords (step e s ev)). word_id w \<noteq> i"
  shows "targetWordId (step e s ev) = None"
proof (cases ev)
  case (KeyDown now key)
  with assms keydown_active_or_cleared[of now s key] show ?thesis
    by auto
next
  case (Frame now)
  define s2 where "s2 = updateEffects now ((if lastFrameTime s = 0 then s\<lparr>lastFrameTime := now\<rparr> else s)\<lparr>lastFrameTime := now\<rparr>)"
  have s2: "targetWordId s2 = targetWordId s" "activeWords s2 = activeWords s"
    by (simp_all add: s2_def updateEffects_def)
  have "step e s ev = s2 \<or> (\<exists>dt. step e s ev = updateWorld e s2 dt)"
    by (auto simp: Frame loop_def Let_def s2_def)
  then show ?thesis
  proof
    assume "step e s ev = s2"
    with assms s2 show ?thesis
      by auto
  next
    assume "\<exists>dt. step e s ev = updateWorld e s2 dt"
    then obtain dt where "step e s ev = updateWorld e s2 dt" ..
    with updateWorld_target_kept[of e s2 dt] assms s2 show ?thesis
      by auto
  qed
next
  case SolveDone
  with assms show ?thesis
    by (auto simp: onWordSolved_resume_def maybeFinishGame_keeps)
next
  case (StartGame speed acc ws maxWords)
  obtain s3 where "startGame e s speed acc ws maxWords = snd (spawnWord e s3)"
      "targetWordId s3 = None"
    using startGame_unfold[of e s speed acc ws maxWords] by blast
  then show ?thesis
    by (simp add: StartGame spawnWord_keeps)
next
  case GoToSetup
  show ?thesis
    by (simp add: GoToSetup goToSetup_def clearInputTracking_def)
qed


lemma initial_target_valid: "initial s \<Longrightarrow> target_valid s"
  by (simp add: initial_def target_valid_None)

lemma reachable_target_valid: "reachable e s \<Longrightarrow> target_valid s"
  by (induction rule: reachable.induct) (simp_all add: initial_target_valid step_target_valid)

text \<open>
  C6. The targeting invariant (a non-null \<open>targetWordId\<close> is the id of an active word
  whose text starts with \<open>inputBuffer\<close>) is preserved by every event of the engine:
  a key press (typed character, Backspace, Escape), a frame (spawn, fall and misses),
  the end of a solve sequence, a start of a game and a return to setup; and by the
  handlers and the reset taken alone. A step after which no active word carries the
  id that was targeted leaves \<open>targetWordId\<close> null.
\<close>

theorem targeting_invariant_preserved:
  assumes "target_valid s"
  shows "target_valid (step e s ev) \<and>
         target_valid (handleTypedCharacter now s ch) \<and>
         target_valid (handleControlKey s key) \<and>
         target_valid (updateWorld e s dt) \<and>
         target_valid (resetRuntimeState s) \<and>
         (\<forall>i. targetWordId s = Some i \<and> (\<forall>w\<in>set (activeWords (step e s ev)). word_id w \<noteq> i)
               \<longrightarrow> targetWordId (step e s ev) = None)"
proof -
  have r: "target_valid (resetRuntimeState s)"
    by (simp add: resetRuntimeState_def updateHUD_def target_valid_None)
  have c: "targetWordId (step e s ev) = None"
    if "targetWordId s = Some i" and "\<forall>w\<in>set (activeWords (step e s ev)). word_id w \<noteq> i" for i
  proof -
    from assms that(1) have "\<exists>w\<in>set (activeWords s). word_id w = i"
      by (auto simp: target_valid_iff)
    with that show ?thesis
      by (intro step_removed_clears[of s i e ev]) simp_all
  qed
  from assms r c show ?thesis
    by (simp add: step_target_valid handleTypedCharacter_target_valid
        handleControlKey_target_valid updateWorld_target_valid)
qed

theorem targeting_invariant_preserved_witness:
  "targetWordId ((session [mk_word 1 ''cat'' 300, mk_word 2 ''car'' 120] [] [])\<lparr>inputBuffer := ''ca'', targetWordId := Some 1\<rparr>) = Some 1 \<and>
   map word_id (activeWords (step demo_env ((session [mk_word 1 ''cat'' 300, mk_word 2 ''car'' 120] [] [])\<lparr>inputBuffer := ''ca'', targetWordId := Some 1\<rparr>) (KeyDown 0 ''t''))) = [2] \<and>
   targetWordId (step demo_env ((session [mk_word 1 ''cat'' 300, mk_word 2 ''car'' 120] [] [])\<lparr>inputBuffer := ''ca'', targetWordId := Some 1\<rparr>) (KeyDown 0 ''t'')) = None \<and>
   target_valid (step demo_env ((session [mk_word 1 ''cat'' 300, mk_word 2 ''car'' 120] [] [])\<lparr>inputBuffer := ''ca'', targetWordId := Some 1\<rparr>) (KeyDown 0 ''t''))"
proof -
  let ?s = "(session [mk_word 1 ''cat'' 300, mk_word 2 ''car'' 120] [] [])\<lparr>inputBuffer := ''ca'', targetWordId := Some 1\<rparr>"
  have v: "target_valid ?s"
    by (simp add: target_valid_def session_def mk_word_def)
  have t: "targetWordId ?s = Some 1"
    by simp
  have lc: "toLowerCase ''t'' = ''t''"
    by (simp add: toLowerCase_def lower_char_def upper_letters_def lower_letters_def)
  have a: "map word_id (activeWords (step demo_env ?s (KeyDown 0 ''t''))) = [2]"
    by (simp add: keydown_def is_letter_key_def upper_letters_def lower_letters_def
        handleTypedCharacter_def lc chooseTarget_def session_def idle_state_def mk_word_def
        removeActiveWordById_def clearInputTracking_def onWordSolved_begin_def animateDissolve_def
        animateScoreGain_def updateHUD_def Let_def)
  have gone: "\<forall>w\<in>set (activeWords (step demo_env ?s (KeyDown 0 ''t''))). word_id w \<noteq> 1"
  proof
    fix w
    assume "w \<in> set (activeWords (step demo_env ?s (KeyDown 0 ''t'')))"
    then have "word_id w \<in> set (map word_id (activeWords (step demo_env ?s (KeyDown 0 ''t''))))"
      by simp
    then show "word_id w \<noteq> 1"
      by (simp only: a) simp
  qed
  from targeting_invariant_preserved[OF v, of demo_env "KeyDown 0 ''t''"] t a gone show ?thesis
    by blast
qed

section \<open>Input while frozen\<close>

text \<open>
  The game is frozen only by the first part of \<open>onWordSolved\<close>, which the keystroke
  handler calls right after clearing the input tracking; while frozen, typed
  characters are refused by the handler's guard, so buffer and target stay empty.
\<close>

lemma handleControlKey_idle:
  "inputBuffer s = [] \<Longrightarrow> targetWordId s = None \<Longrightarrow> handleControlKey s key = s"
  by (simp add: handleControlKey_def clearInputTracking_def)

lemma handleControlKey_frozen: "frozen (handleControlKey s key) = frozen s"
  by (simp add: handleControlKey_def Let_def clearInputTracking_def split: option.splits)

lemma handleTypedCharacter_frozen_idle:
  assumes "\<not> frozen s"
  shows "\<not> frozen (handleTypedCharacter now s ch) \<or>
         (inputBuffer (handleTypedCharacter now s ch) = [] \<and>
          targetWordId (handleTypedCharacter now s ch) = None)"
proof (cases "running s \<and> \<not> gameOver s")
  case False
  with assms show ?thesis
    by (auto simp: handleTypedCharacter_def)
next
  case True
  with assms have g: "running s" "\<not> frozen s" "\<not> gameOver s"
    by simp_all
  show ?thesis
  proof (cases "spec_resolve s (toLowerCase ch)")
    case None
    show ?thesis
      by (simp add: handleTypedCharacter_no_match[OF g None] clearInputTracking_def)
  next
    case (Some bt)
    obtain b t where bt: "spec_resolve s (toLowerCase ch) = Some (b, t)"
      using Some by (cases bt) simp
    show ?thesis
    proof (cases "b = word_text t")
      case True
      from handleTypedCharacter_solve[OF g bt True, of now]
      have "inputBuffer (handleTypedCharacter now s ch) = [] \<and>
            targetWordId (handleTypedCharacter now s ch) = None"
        by (auto simp: onWordSolved_begin_def animateDissolve_def animateScoreGain_def
            updateHUD_def Let_def)
      then show ?thesis ..
    next
      case False
      show ?thesis
        using g(2) by (simp add: handleTypedCharacter_commit[OF g bt False] updateHUD_def)
    qed
  qed
qed

lemma updateWorld_frozen: "frozen (updateWorld e s dt) = frozen s"
  by (simp add: updateWorld_def Let_def split_beta maybeFinishGame_keeps fall_loop_keeps
      spawn_loop_keeps)

lemma keydown_frozen_idle:
  assumes "frozen s \<longrightarrow> inputBuffer s = [] \<and> targetWordId s = None"
  shows "frozen (keydown now s key) \<longrightarrow>
         inputBuffer (keydown now s key) = [] \<and> targetWordId (keydown now s key) = None"
proof (cases "frozen s")
  case True
  with assms have "keydown now s key = s"
    by (simp add: keydown_def handleTypedCharacter_def handleControlKey_idle)
  with assms show ?thesis
    by simp
next
  case False
  have "keydown now s key = s \<or> keydown now s key = handleTypedCharacter now s key \<or>
        keydown now s key = handleControlKey s key"
    by (simp add: keydown_def)
  with False handleTypedCharacter_frozen_idle[OF False, of now key] show ?thesis
    by (auto simp: handleControlKey_frozen)
qed

lemma step_frozen_idle:
  assumes "frozen s \<longrightarrow> inputBuffer s = [] \<and> targetWordId s = None"
  shows "frozen (step e s ev) \<longrightarrow>
         inputBuffer (step e s ev) = [] \<and> targetWordId (step e s ev) = None"
proof (cases ev)
  case (KeyDown now key)
  with keydown_frozen_idle[OF assms, of now key] show ?thesis
    by simp
next
  case (Frame now)
  define s2 where "s2 = updateEffects now ((if lastFrameTime s = 0 then s\<lparr>lastFrameTime := now\<rparr> else s)\<lparr>lastFrameTime := now\<rparr>)"
  have s2: "frozen s2 = frozen s" "inputBuffer s2 = inputBuffer s" "targetWordId s2 = targetWordId s"
    by (simp_all add: s2_def updateEffects_def)
  have "step e s ev = s2 \<or> (\<not> frozen s2 \<and> (\<exists>dt. step e s ev = updateWorld e s2 dt))"
    by (auto simp: Frame loop_def Let_def s2_def)
  with assms s2 show ?thesis
    by (auto simp: updateWorld_frozen)
next
  case SolveDone
  show ?thesis
    by (simp add: SolveDone onWordSolved_resume_def maybeFinishGame_keeps)
next
  case (StartGame speed acc ws maxWords)
  obtain s3 where "startGame e s speed acc ws maxWords = snd (spawnWord e s3)" "\<not> frozen s3"
    using startGame_unfold[of e s speed acc ws maxWords] by blast
  then show ?thesis
    by (simp add: StartGame spawnWord_keeps)
next
  case GoToSetup
  show ?thesis
    by (simp add: GoToSetup goToSetup_def clearInputTracking_def)
qed

lemma reachable_frozen_idle:
  "reachable e s \<Longrightarrow> frozen s \<longrightarrow> inputBuffer s = [] \<and> targetWordId s = None"
proof (induction rule: reachable.induct)
  case (reachable_init s)
  then show ?case
    by (simp add: initial_def)
next
  case (reachable_step s ev)
  then show ?case
    by (intro step_frozen_idle)
qed

text \<open>
  C2. In every state the engine can reach, a key delivered while \<open>frozen\<close> is true
  leaves the whole state as it is: a letter, Backspace, Escape or any other key
  through the keydown listener, and the two handlers called directly.
\<close>

theorem frozen_input_ignored:
  assumes "reachable e s" and "frozen s"
  shows "keydown now s key = s \<and> handleTypedCharacter now s ch = s \<and> handleControlKey s key = s"
proof -
  from reachable_frozen_idle[OF assms(1)] assms(2)
  have idle: "inputBuffer s = []" "targetWordId s = None"
    by simp_all
  have c: "handleControlKey s k = s" for k
    using idle by (rule handleControlKey_idle)
  have t: "handleTypedCharacter now s k = s" for k
    using assms(2) by (simp add: handleTypedCharacter_def)
  show ?thesis
    by (simp add: keydown_def c t)
qed

theorem frozen_input_ignored_witness:
  "frozen (step demo_env (step demo_env idle_state (StartGame 1 ''en-US'' [''a''] 0)) (KeyDown 0 ''a'')) \<and>
   keydown 5 (step demo_env (step demo_env idle_state (StartGame 1 ''en-US'' [''a''] 0)) (KeyDown 0 ''a'')) ''b''
     = step demo_env (step demo_env idle_state (StartGame 1 ''en-US'' [''a''] 0)) (KeyDown 0 ''a'') \<and>
   keydown 5 (step demo_env (step demo_env idle_state (StartGame 1 ''en-US'' [''a''] 0)) (KeyDown 0 ''a'')) ''Backspace''
     = step demo_env (step demo_env idle_state (StartGame 1 ''en-US'' [''a''] 0)) (KeyDown 0 ''a'') \<and>
   keydown 5 (step demo_env (step demo_env idle_state (StartGame 1 ''en-US'' [''a''] 0)) (KeyDown 0 ''a'')) ''Escape''
     = step demo_env (step demo_env idle_state (StartGame 1 ''en-US'' [''a''] 0)) (KeyDown 0 ''a'')"
proof -
  let ?s1 = "step demo_env idle_state (StartGame 1 ''en-US'' [''a''] 0)"
  let ?s2 = "step demo_env ?s1 (KeyDown 0 ''a'')"
  have r: "reachable demo_env ?s2"
    by (intro reachable_step reachable_init) (simp add: initial_def idle_state_def)
  have s1: "running ?s1" "\<not> frozen ?s1" "\<not> gameOver ?s1" "inputBuffer ?s1 = []"
      "map word_text (activeWords ?s1) = [''a'']"
    by (simp_all add: startGame_def resetRuntimeState_def updateHUD_def idle_state_def shuffle_def
        spawnWord_def chooseSpawnX_def demo_env_def Let_def)
  have lc: "toLowerCase ''a'' = ''a''"
    by (simp add: toLowerCase_def lower_char_def upper_letters_def lower_letters_def)
  obtain w where aw: "activeWords ?s1 = [w]" "word_text w = ''a''"
    using s1(5) by (cases "activeWords ?s1") auto
  have ct: "chooseTarget ?s1 ''a'' = Some w"
    by (simp add: chooseTarget_def aw del: step.simps)
  then have "spec_resolve ?s1 (toLowerCase ''a'') = Some (''a'', w)"
    by (simp add: spec_resolve_def lc s1(4) del: step.simps)
  from handleTypedCharacter_solve[OF s1(1-3) this aw(2)[symmetric], of 0]
  have "frozen (handleTypedCharacter 0 ?s1 ''a'')"
    by (auto simp: onWordSolved_begin_def animateDissolve_def animateScoreGain_def
        updateHUD_def Let_def)
  then have f: "frozen ?s2"
    using s1(1) by (simp add: keydown_def is_letter_key_def lower_letters_def)
  from frozen_input_ignored[OF r f] f show ?thesis
    by simp
qed

section \<open>Ids along the active words\<close>

lemma ids_increasing_cong:
  assumes "ids_increasing s" and "activeWords s' = activeWords s" and "nextWordId s' = nextWordId s"
  shows "ids_increasing s'"
  using assms by (simp add: ids_increasing_def)

lemma ids_increasing_remove:
  assumes "ids_increasing s" and "activeWords s = pre @ w # post"
    and "activeWords s' = pre @ post" and "nextWordId s' = nextWordId s"
  shows "ids_increasing s'"
  using assms by (auto simp: ids_increasing_def sorted_wrt_append)

lemma spawnWord_ids_increasing:
  assumes "ids_increasing s"
  shows "ids_increasing (snd (spawnWord e s))"
  using spawnWord_active[of e s]
proof
  assume "activeWords (snd (spawnWord e s)) = activeWords s \<and>
          nextWordId (snd (spawnWord e s)) = nextWordId s"
  with assms show ?thesis
    by (auto intro: ids_increasing_cong)
next
  assume "\<exists>w. activeWords (snd (spawnWord e s)) = activeWords s @ [w] \<and> word_id w = nextWordId s \<and>
        nextWordId (snd (spawnWord e s)) = nextWordId s + 1"
  with assms show ?thesis
    by (auto intro: ids_increasing_push)
qed

lemma spawn_loop_ids_increasing:
  assumes "ids_increasing s"
  shows "ids_increasing (spawn_loop e s)"
proof (rule spawn_loop_preserves[where P = ids_increasing])
  show "ids_increasing s"
    by (rule assms)
  show "ids_increasing (snd (spawnWord e u))" if "ids_increasing u" for u
    using that by (rule spawnWord_ids_increasing)
  show "ids_increasing (u\<lparr>spawnTimer := t\<rparr>)" if "ids_increasing u" for u t
    using that by (simp add: ids_increasing_def)
qed

lemma sorted_wrt_filter_map_ids:
  "sorted_wrt (<) (map word_id ws) \<Longrightarrow>
   sorted_wrt (<) (map word_id (filter P (map (\<lambda>w. w\<lparr>word_y := word_y w + dy\<rparr>) ws)))"
  by (induction ws) auto

lemma updateWorld_ids_increasing:
  assumes "ids_increasing s"
  shows "ids_increasing (updateWorld e s dt)"
proof -
  define s1 where "s1 = spawn_loop e (s\<lparr>spawnTimer := spawnTimer s + dt\<rparr>)"
  define r where "r = fall_loop (groundY e) (speedToPixelsPerSecond e (speedLevel s1) * dt) s1 [] (activeWords s1)"
  have "ids_increasing (s\<lparr>spawnTimer := spawnTimer s + dt\<rparr>)"
    using assms by (simp add: ids_increasing_def)
  then have i1: "ids_increasing s1"
    unfolding s1_def by (rule spawn_loop_ids_increasing)
  have sv: "snd r = filter (\<lambda>w. \<not> word_y w \<ge> groundY e)
      (map (\<lambda>w. w\<lparr>word_y := word_y w + speedToPixelsPerSecond e (speedLevel s1) * dt\<rparr>) (activeWords s1))"
    by (simp add: r_def fall_loop_survivors)
  have n: "nextWordId (fst r) = nextWordId s1"
    by (simp add: r_def fall_loop_keeps)
  have "ids_increasing ((fst r)\<lparr>activeWords := snd r\<rparr>)"
    using i1 by (auto simp: ids_increasing_def sv n sorted_wrt_filter_map_ids)
  then have "ids_increasing (maybeFinishGame ((fst r)\<lparr>activeWords := snd r\<rparr>))"
    by (rule ids_increasing_cong) (simp_all add: maybeFinishGame_keeps)
  then show ?thesis
    by (simp add: updateWorld_def Let_def s1_def r_def split_beta)
qed

lemma handleControlKey_active: "activeWords (handleControlKey s key) = activeWords s"
  "nextWordId (handleControlKey s key) = nextWordId s"
  by (simp_all add: handleControlKey_def Let_def clearInputTracking_def split: option.splits)

lemma handleTypedCharacter_ids_increasing:
  assumes "ids_increasing s"
  shows "ids_increasing (handleTypedCharacter now s ch)"
proof (cases "running s \<and> \<not> frozen s \<and> \<not> gameOver s")
  case False
  with assms show ?thesis
    by (auto simp: handleTypedCharacter_def)
next
  case True
  then have g: "running s" "\<not> frozen s" "\<not> gameOver s"
    by simp_all
  show ?thesis
  proof (cases "spec_resolve s (toLowerCase ch)")
    case None
    from assms show ?thesis
      by (rule ids_increasing_cong)
        (simp_all add: handleTypedCharacter_no_match[OF g None] clearInputTracking_def updateHUD_def)
  next
    case (Some bt)
    obtain b t where bt: "spec_resolve s (toLowerCase ch) = Some (b, t)"
      using Some by (cases bt) simp
    show ?thesis
    proof (cases "b = word_text t")
      case True
      from handleTypedCharacter_solve[OF g bt True, of now] obtain pre w post where
        h: "activeWords s = pre @ w # post"
           "handleTypedCharacter now s ch =
             onWordSolved_begin now
               ((if chain_break s (toLowerCase ch) then updateHUD (s\<lparr>combo := 0\<rparr>) else s)
                  \<lparr>activeWords := pre @ post, inputBuffer := [], targetWordId := None\<rparr>) w"
        by blast
      from assms h(1) show ?thesis
        by (rule ids_increasing_remove)
          (simp_all add: h(2) onWordSolved_begin_def animateDissolve_def animateScoreGain_def
            updateHUD_def Let_def)
    next
      case False
      from assms show ?thesis
        by (rule ids_increasing_cong)
          (simp_all add: handleTypedCharacter_commit[OF g bt False] updateHUD_def)
    qed
  qed
qed

lemma step_ids_increasing:
  assumes "ids_increasing s"
  shows "ids_increasing (step e s ev)"
proof (cases ev)
  case (KeyDown now key)
  have "keydown now s key = s \<or> keydown now s key = handleTypedCharacter now s key \<or>
        keydown now s key = handleControlKey s key"
    by (simp add: keydown_def)
  with assms handleTypedCharacter_ids_increasing[OF assms, of now key] show ?thesis
    by (auto simp: KeyDown ids_increasing_def handleControlKey_active)
next
  case (Frame now)
  define s2 where "s2 = updateEffects now ((if lastFrameTime s = 0 then s\<lparr>lastFrameTime := now\<rparr> else s)\<lparr>lastFrameTime := now\<rparr>)"
  have s2: "ids_increasing s2"
    using assms by (simp add: s2_def updateEffects_def ids_increasing_def)
  have "step e s ev = s2 \<or> (\<exists>dt. step e s ev = updateWorld e s2 dt)"
    by (auto simp: Frame loop_def Let_def s2_def)
  with s2 show ?thesis
    by (auto simp: updateWorld_ids_increasing)
next
  case SolveDone
  from assms show ?thesis
    by (rule ids_increasing_cong) (simp_all add: SolveDone onWordSolved_resume_def maybeFinishGame_keeps)
next
  case (StartGame speed acc ws maxWords)
  obtain s3 where s3: "startGame e s speed acc ws maxWords = snd (spawnWord e s3)" "activeWords s3 = []"
    using startGame_unfold[of e s speed acc ws maxWords] by blast
  have "ids_increasing s3"
    by (simp add: ids_increasing_def s3(2))
  then show ?thesis
    by (simp add: StartGame s3(1) spawnWord_ids_increasing)
next
  case GoToSetup
  from assms show ?thesis
    by (rule ids_increasing_cong) (simp_all add: GoToSetup goToSetup_def clearInputTracking_def)
qed

lemma reachable_ids_increasing: "reachable e s \<Longrightarrow> ids_increasing s"
proof (induction rule: reachable.induct)
  case (reachable_init s)
  then show ?case
    by (simp add: initial_def ids_increasing_def)
next
  case (reachable_step s ev)
  then show ?case
    by (intro step_ids_increasing)
qed

text \<open>
  Within a session the id counter never goes down: only a start of a game resets it.
\<close>

lemma spawn_loop_nextWordId: "nextWordId s \<le> nextWordId (spawn_loop e s)"
proof (rule spawn_loop_preserves[where P = "\<lambda>u. nextWordId s \<le> nextWordId u"])
  show "nextWordId s \<le> nextWordId s"
    by simp
  show "nextWordId s \<le> nextWordId (snd (spawnWord e u))" if "nextWordId s \<le> nextWordId u" for u
    using that spawnWord_active[of e u] by auto
  show "nextWordId s \<le> nextWordId (u\<lparr>spawnTimer := t\<rparr>)" if "nextWordId s \<le> nextWordId u" for u t
    using that by simp
qed

lemma step_nextWordId_mono:
  assumes "\<not> is_start ev"
  shows "nextWordId s \<le> nextWordId (step e s ev)"
proof (cases ev)
  case (KeyDown now key)
  have t: "nextWordId (handleTypedCharacter now s key) = nextWordId s"
  proof (cases "running s \<and> \<not> frozen s \<and> \<not> gameOver s")
    case False
    then show ?thesis
      by (auto simp: handleTypedCharacter_def)
  next
    case True
    then have g: "running s" "\<not> frozen s" "\<not> gameOver s"
      by simp_all
    show ?thesis
    proof (cases "spec_resolve s (toLowerCase key)")
      case None
      show ?thesis
        by (simp add: handleTypedCharacter_no_match[OF g None] clearInputTracking_def updateHUD_def)
    next
      case (Some bt)
      obtain b t where bt: "spec_resolve s (toLowerCase key) = Some (b, t)"
        using Some by (cases bt) simp
      show ?thesis
      proof (cases "b = word_text t")
        case True
        from handleTypedCharacter_solve[OF g bt True, of now] show ?thesis
          by (auto simp: onWordSolved_begin_def animateDissolve_def animateScoreGain_def
              updateHUD_def Let_def)
      next
        case False
        show ?thesis
          by (simp add: handleTypedCharacter_commit[OF g bt False] updateHUD_def)
      qed
    qed
  qed
  show ?thesis
    by (simp add: KeyDown keydown_def t handleControlKey_active)
next
  case (Frame now)
  have "nextWordId u \<le> nextWordId (updateWorld e u dt)" for u dt
    using spawn_loop_nextWordId[of "u\<lparr>spawnTimer := spawnTimer u + dt\<rparr>" e]
    by (simp add: updateWorld_def Let_def split_beta maybeFinishGame_keeps fall_loop_keeps)
  from this[of "updateEffects now ((if lastFrameTime s = 0 then s\<lparr>lastFrameTime := now\<rparr> else s)\<lparr>lastFrameTime := now\<rparr>)"]
  show ?thesis
    by (auto simp: Frame loop_def Let_def updateEffects_def)
next
  case SolveDone
  show ?thesis
    by (simp add: SolveDone onWordSolved_resume_def maybeFinishGame_keeps)
next
  case (StartGame speed acc ws maxWords)
  with assms show ?thesis
    by simp
next
  case GoToSetup
  show ?thesis
    by (simp add: GoToSetup goToSetup_def clearInputTracking_def)
qed

section \<open>Ids given out in a session\<close>














section \<open>Combo and score\<close>

lemma spec_replay_Nil: "spec_replay [] cs = cs"
  by (simp add: spec_replay_def)

lemma spec_replay_append: "spec_replay (xs @ ys) cs = spec_replay ys (spec_replay xs cs)"
  by (simp add: spec_replay_def)

lemma spec_replay_misses:
  "spec_replay (map (\<lambda>w. Miss) ws) (c, sc) = (if ws = [] then c else 0, sc)"
proof (induction ws arbitrary: c)
  case Nil
  show ?case by (simp add: spec_replay_def)
next
  case (Cons w ws)
  have "spec_replay (map (\<lambda>w. Miss) (w # ws)) (c, sc) = spec_replay (map (\<lambda>w. Miss) ws) (0, sc)"
    by (simp add: spec_replay_def)
  then show ?case
    by (simp add: Cons.IH)
qed

lemma spec_replay_solves:
  "spec_replay (replicate k Solve) (c, sc) = (c + k, sc + k * c + (\<Sum>i = 1..k. i))"
proof (induction k arbitrary: c sc)
  case 0
  show ?case by (simp add: spec_replay_def)
next
  case (Suc k)
  have "spec_replay (replicate (Suc k) Solve) (c, sc) = spec_replay (replicate k Solve) (c + 1, sc + (c + 1))"
    by (simp add: spec_replay_def)
  also have "\<dots> = (c + 1 + k, sc + (c + 1) + k * (c + 1) + (\<Sum>i = 1..k. i))"
    by (rule Suc.IH)
  finally show ?case
    by (simp add: algebra_simps)
qed

lemma fall_loop_combo:
  "combo (fst (fall_loop g dy s surv ws)) =
     (if filter (\<lambda>w. word_y w + dy \<ge> g) ws = [] then combo s else 0)"
proof (induction ws arbitrary: s surv)
  case Nil
  show ?case by simp
next
  case (Cons w ws)
  show ?case
    by (simp add: Let_def Cons.IH onWordMissed_keeps)
qed

lemma maybeFinishGame_counters:
  "combo (maybeFinishGame s) = combo s" "score (maybeFinishGame s) = score s"
  by (simp_all add: maybeFinishGame_def)

lemma updateWorld_score_events:
  "(combo (updateWorld e s dt), score (updateWorld e s dt)) =
     spec_replay
       (map (\<lambda>w. Miss)
          (filter (\<lambda>w. word_y w + speedToPixelsPerSecond e (speedLevel s) * dt \<ge> groundY e)
             (activeWords (spawn_loop e (s\<lparr>spawnTimer := spawnTimer s + dt\<rparr>)))))
       (combo s, score s)"
  by (simp add: updateWorld_def Let_def split_beta maybeFinishGame_counters
      fall_loop_combo fall_loop_keeps spawn_loop_keeps spec_replay_misses)

lemma spec_replay_score_mono: "snd cs \<le> snd (spec_replay evs cs)"
proof (induction evs arbitrary: cs)
  case Nil
  show ?case by (simp add: spec_replay_def)
next
  case (Cons ev evs)
  obtain c sc where cs: "cs = (c, sc)"
    by (cases cs)
  have "snd cs \<le> snd (spec_apply ev cs)"
    by (cases ev) (simp_all add: cs)
  also have "\<dots> \<le> snd (spec_replay evs (spec_apply ev cs))"
    by (rule Cons.IH)
  finally show ?case
    by (simp add: spec_replay_def)
qed

lemma onWordSolved_begin_counters:
  "combo (onWordSolved_begin now s w) = combo s + 1"
  "score (onWordSolved_begin now s w) = score s + (combo s + 1)"
  by (simp_all add: onWordSolved_begin_def animateDissolve_def animateScoreGain_def
      updateHUD_def Let_def)

lemma handleControlKey_counters:
  "combo (handleControlKey s key) = combo s" "score (handleControlKey s key) = score s"
  by (simp_all add: handleControlKey_def Let_def clearInputTracking_def split: option.splits)

lemma keydown_score_events:
  "(combo (keydown now s key), score (keydown now s key)) =
     spec_replay (spec_key_events s key) (combo s, score s)"
proof (cases "running s \<and> \<not> frozen s \<and> \<not> gameOver s \<and> is_letter_key key")
  case False
  have t: "handleTypedCharacter now s k = s" if "\<not> running s \<or> frozen s \<or> gameOver s" for k
    using that by (simp add: handleTypedCharacter_def)
  from False have "keydown now s key = s \<or> keydown now s key = handleControlKey s key"
    by (auto simp: keydown_def t)
  then have "(combo (keydown now s key), score (keydown now s key)) = (combo s, score s)"
    by (auto simp: handleControlKey_counters)
  moreover have "spec_key_events s key = []"
    unfolding spec_key_events_def by (simp only: False if_False)
  ultimately show ?thesis
    by (simp add: spec_replay_Nil)
next
  case True
  then have g: "running s" "\<not> frozen s" "\<not> gameOver s"
    and k: "keydown now s key = handleTypedCharacter now s key"
    by (simp_all add: keydown_def)
  define cb where "cb = (if chain_break s (toLowerCase key) then [ChainBreak] else [])"
  define s1 where "s1 = (if chain_break s (toLowerCase key) then updateHUD (s\<lparr>combo := 0\<rparr>) else s)"
  have cb: "spec_replay cb (combo s, score s) = (combo s1, score s1)"
    by (simp add: cb_def s1_def spec_replay_def updateHUD_def)
  show ?thesis
  proof (cases "spec_resolve s (toLowerCase key)")
    case None
    have "spec_key_events s key = cb"
      using True by (simp add: spec_key_events_def cb_def None)
    then show ?thesis
      by (simp add: cb k handleTypedCharacter_no_match[OF g None] s1_def[symmetric]
          clearInputTracking_def)
  next
    case (Some bt)
    obtain b t where bt: "spec_resolve s (toLowerCase key) = Some (b, t)"
      using Some by (cases bt) simp
    show ?thesis
    proof (cases "b = word_text t")
      case False
      have "spec_key_events s key = cb"
        using True False by (simp add: spec_key_events_def cb_def bt)
      then show ?thesis
        by (simp add: cb k handleTypedCharacter_commit[OF g bt False] s1_def[symmetric])
    next
      case solved: True
      have ev: "spec_key_events s key = cb @ [Solve]"
        using True solved by (simp add: spec_key_events_def cb_def bt)
      from handleTypedCharacter_solve[OF g bt solved, of now]
      have "combo (handleTypedCharacter now s key) = combo s1 + 1"
        "score (handleTypedCharacter now s key) = score s1 + (combo s1 + 1)"
        by (auto simp: onWordSolved_begin_counters s1_def)
      then show ?thesis
        by (simp add: ev spec_replay_append cb k) (simp add: spec_replay_def)
    qed
  qed
qed

lemma step_score_events:
  assumes "\<not> is_start ev"
  shows "(combo (step e s ev), score (step e s ev)) =
           spec_replay (spec_events e s ev) (combo s, score s)"
proof (cases ev)
  case (KeyDown now key)
  then show ?thesis
    by (simp add: keydown_score_events)
next
  case (Frame now)
  define s2 where "s2 = updateEffects now (s\<lparr>lastFrameTime := now\<rparr>)"
  have s2: "combo s2 = combo s" "score s2 = score s" "speedLevel s2 = speedLevel s"
    "running s2 = running s" "frozen s2 = frozen s" "gameOver s2 = gameOver s"
    by (simp_all add: s2_def updateEffects_def)
  have p: "updateEffects now ((if lastFrameTime s = 0 then s\<lparr>lastFrameTime := now\<rparr> else s)\<lparr>lastFrameTime := now\<rparr>) = s2"
    by (simp add: s2_def)
  show ?thesis
  proof (cases "running s \<and> \<not> frozen s \<and> \<not> gameOver s")
    case False
    then have "step e s ev = s2"
      by (auto simp: Frame loop_def Let_def p s2)
    moreover have "spec_frame_events e s now = []"
      unfolding spec_frame_events_def by (simp only: False if_False)
    ultimately show ?thesis
      by (simp add: Frame spec_replay_Nil s2 del: step.simps)
  next
    case True
    define dt where "dt = min 0.1 ((now - (if lastFrameTime s = 0 then now else lastFrameTime s)) / 1000)"
    have "step e s ev = updateWorld e s2 dt"
      using True by (simp add: Frame loop_def Let_def p s2 dt_def)
    moreover have "spec_events e s ev =
        map (\<lambda>w. Miss)
          (filter (\<lambda>w. word_y w + speedToPixelsPerSecond e (speedLevel s2) * dt \<ge> groundY e)
             (activeWords (spawn_loop e (s2\<lparr>spawnTimer := spawnTimer s2 + dt\<rparr>))))"
      using True by (simp add: Frame spec_frame_events_def Let_def s2_def[symmetric] dt_def s2)
    ultimately show ?thesis
      using updateWorld_score_events[of e s2 dt] by (simp add: s2)
  qed
next
  case SolveDone
  show ?thesis
    by (simp add: SolveDone onWordSolved_resume_def maybeFinishGame_counters spec_replay_Nil)
next
  case (StartGame speed acc ws maxWords)
  with assms show ?thesis
    by simp
next
  case GoToSetup
  show ?thesis
    by (simp add: GoToSetup goToSetup_def clearInputTracking_def spec_replay_Nil)
qed

lemma run_score_events:
  assumes "list_all (\<lambda>ev. \<not> is_start ev) evs"
  shows "(combo (run e s evs), score (run e s evs)) =
           spec_replay (spec_run_events e s evs) (combo s, score s)"
  using assms
proof (induction evs arbitrary: s)
  case Nil
  show ?case by (simp add: spec_replay_Nil)
next
  case (Cons ev evs)
  then have "\<not> is_start ev" "list_all (\<lambda>ev. \<not> is_start ev) evs"
    by simp_all
  from step_score_events[OF this(1), of e s] Cons.IH[OF this(2), of "step e s ev"]
  show ?case
    by (simp add: spec_replay_append)
qed

text \<open>
  C4. \<open>combo\<close> and \<open>score\<close> are a function of the stream of solves, misses and chain
  breaks alone: over any run of engine events that does not start a new game, the two
  counters are what replaying the run's scoring events gives, where a solve adds one
  to \<open>combo\<close> and then the new \<open>combo\<close> to \<open>score\<close>, and a miss or a chain break sets
  \<open>combo\<close> to 0 (a chain break followed by a solve in the same keystroke leaves
  \<open>combo\<close> at 1). So \<open>k\<close> solves in a row from \<open>combo = c\<close> add
  \<open>(c + 1) + \<dots> + (c + k)\<close>, which from \<open>combo = 0\<close> is \<open>1 + 2 + \<dots> + k\<close>; and \<open>score\<close>
  never decreases along such a run. The reset of a new game sets both to 0.
\<close>

theorem combo_score_from_events:
  assumes "list_all (\<lambda>ev. \<not> is_start ev) evs"
  shows "(combo (run e s evs), score (run e s evs)) =
           spec_replay (spec_run_events e s evs) (combo s, score s) \<and>
         score s \<le> score (run e s evs) \<and>
         spec_replay (replicate k Solve) (c, sc) = (c + k, sc + k * c + (\<Sum>i = 1..k. i)) \<and>
         spec_replay (replicate k Solve) (0, sc) = (k, sc + (\<Sum>i = 1..k. i)) \<and>
         combo (onWordSolved_begin now s w) = combo s + 1 \<and>
         score (onWordSolved_begin now s w) = score s + (combo s + 1) \<and>
         combo (onWordMissed s w) = 0 \<and> score (onWordMissed s w) = score s \<and>
         combo (resetRuntimeState s) = 0 \<and> score (resetRuntimeState s) = 0"
proof -
  have r: "(combo (run e s evs), score (run e s evs)) =
             spec_replay (spec_run_events e s evs) (combo s, score s)"
    using assms by (rule run_score_events)
  have "snd (combo s, score s) \<le> snd (spec_replay (spec_run_events e s evs) (combo s, score s))"
    by (rule spec_replay_score_mono)
  then have m: "score s \<le> score (run e s evs)"
    by (simp add: r[symmetric])
  have z: "spec_replay (replicate k Solve) (0, sc) = (k, sc + (\<Sum>i = 1..k. i))"
    using spec_replay_solves[of k 0 sc] by simp
  have x: "combo (resetRuntimeState s) = 0" "score (resetRuntimeState s) = 0"
    by (simp_all add: resetRuntimeState_def updateHUD_def)
  from r m z x show ?thesis
    by (simp add: spec_replay_solves onWordSolved_begin_counters onWordMissed_keeps)
qed

theorem combo_score_from_events_witness:
  "spec_run_events demo_env (session [mk_word 1 ''a'' 100, mk_word 2 ''b'' 50] [] [])
      [KeyDown 0 ''a'', SolveDone, KeyDown 700 ''b''] = [Solve, Solve] \<and>
   combo (run demo_env (session [mk_word 1 ''a'' 100, mk_word 2 ''b'' 50] [] [])
      [KeyDown 0 ''a'', SolveDone, KeyDown 700 ''b'']) = 2 \<and>
   score (run demo_env (session [mk_word 1 ''a'' 100, mk_word 2 ''b'' 50] [] [])
      [KeyDown 0 ''a'', SolveDone, KeyDown 700 ''b'']) = 3"
proof -
  let ?s = "session [mk_word 1 ''a'' 100, mk_word 2 ''b'' 50] [] []"
  let ?evs = "[KeyDown 0 ''a'', SolveDone, KeyDown 700 ''b'']"
  have n: "list_all (\<lambda>ev. \<not> is_start ev) ?evs"
    by simp
  have lc: "toLowerCase ''a'' = ''a''" "toLowerCase ''b'' = ''b''"
    by (simp_all add: toLowerCase_def lower_char_def upper_letters_def lower_letters_def)
  have lk: "is_letter_key ''a''" "is_letter_key ''b''"
    by (simp_all add: is_letter_key_def lower_letters_def)
  have s0: "combo ?s = 0" "score ?s = 0"
    by (simp_all add: session_def idle_state_def)
  have ev: "spec_run_events demo_env ?s ?evs = [Solve, Solve]"
    by (simp add: spec_key_events_def spec_resolve_def chain_break_def lc lk keydown_def
        handleTypedCharacter_def chooseTarget_def session_def idle_state_def mk_word_def
        removeActiveWordById_def clearInputTracking_def onWordSolved_begin_def
        onWordSolved_resume_def maybeFinishGame_def animateDissolve_def animateScoreGain_def
        updateHUD_def Let_def)
  have "spec_replay [Solve, Solve] (0, 0) = (2, 3)"
    by (simp add: spec_replay_def)
  with combo_score_from_events[OF n, of demo_env ?s] ev s0 show ?thesis
    by simp
qed

section \<open>Phase flags\<close>

text \<open>
  \<open>running\<close> and \<open>gameOver\<close> are never both true in a state the engine can reach.
\<close>

lemma onWordSolved_begin_phase:
  "running (onWordSolved_begin now s w) = running s"
  "gameOver (onWordSolved_begin now s w) = gameOver s"
  by (simp_all add: onWordSolved_begin_def animateDissolve_def animateScoreGain_def
      updateHUD_def Let_def)

lemma handleTypedCharacter_phase:
  "running (handleTypedCharacter now s ch) = running s \<and>
   gameOver (handleTypedCharacter now s ch) = gameOver s"
proof (cases "running s \<and> \<not> frozen s \<and> \<not> gameOver s")
  case False
  then show ?thesis
    by (auto simp: handleTypedCharacter_def)
next
  case True
  then have g: "running s" "\<not> frozen s" "\<not> gameOver s"
    by simp_all
  show ?thesis
  proof (cases "spec_resolve s (toLowerCase ch)")
    case None
    show ?thesis
      by (simp add: handleTypedCharacter_no_match[OF g None] clearInputTracking_def updateHUD_def)
  next
    case (Some bt)
    obtain b t where bt: "spec_resolve s (toLowerCase ch) = Some (b, t)"
      using Some by (cases bt) simp
    show ?thesis
    proof (cases "b = word_text t")
      case True
      from handleTypedCharacter_solve[OF g bt True, of now] obtain u w where
        "handleTypedCharacter now s ch = onWordSolved_begin now u w"
        "running u = running s" "gameOver u = gameOver s"
        by (auto simp: updateHUD_def)
      then show ?thesis
        by (simp add: onWordSolved_begin_phase)
    next
      case False
      show ?thesis
        by (simp add: handleTypedCharacter_commit[OF g bt False] updateHUD_def)
    qed
  qed
qed

lemma handleControlKey_phase:
  "running (handleControlKey s key) = running s \<and> gameOver (handleControlKey s key) = gameOver s"
  by (simp add: handleControlKey_def Let_def clearInputTracking_def split: option.splits)

lemma maybeFinishGame_phase:
  "\<not> (running s \<and> gameOver s) \<Longrightarrow> \<not> (running (maybeFinishGame s) \<and> gameOver (maybeFinishGame s))"
  by (simp add: maybeFinishGame_def)

lemma step_phase_exclusive:
  assumes "\<not> (running s \<and> gameOver s)"
  shows "\<not> (running (step e s ev) \<and> gameOver (step e s ev))"
proof (cases ev)
  case (KeyDown now key)
  have "keydown now s key = s \<or> keydown now s key = handleTypedCharacter now s key \<or>
        keydown now s key = handleControlKey s key"
    by (simp add: keydown_def)
  with assms show ?thesis
    by (auto simp: KeyDown handleTypedCharacter_phase handleControlKey_phase)
next
  case (Frame now)
  define s2 where "s2 = updateEffects now ((if lastFrameTime s = 0 then s\<lparr>lastFrameTime := now\<rparr> else s)\<lparr>lastFrameTime := now\<rparr>)"
  have s2: "running s2 = running s" "gameOver s2 = gameOver s"
    by (simp_all add: s2_def updateEffects_def)
  have u: "\<not> (running (updateWorld e s2 dt) \<and> gameOver (updateWorld e s2 dt))" for dt
    unfolding updateWorld_def Let_def split_beta
    by (rule maybeFinishGame_phase) (simp add: fall_loop_keeps spawn_loop_keeps s2 assms)
  have "step e s ev = s2 \<or> (\<exists>dt. step e s ev = updateWorld e s2 dt)"
    by (auto simp: Frame loop_def Let_def s2_def)
  with assms s2 u show ?thesis
    by auto
next
  case SolveDone
  show ?thesis
    unfolding SolveDone step.simps onWordSolved_resume_def
    by (rule maybeFinishGame_phase) (simp add: assms)
next
  case (StartGame speed acc ws maxWords)
  obtain s3 where "startGame e s speed acc ws maxWords = snd (spawnWord e s3)" "\<not> gameOver s3"
    using startGame_unfold[of e s speed acc ws maxWords] by blast
  then show ?thesis
    by (simp add: StartGame spawnWord_keeps)
next
  case GoToSetup
  show ?thesis
    by (simp add: GoToSetup goToSetup_def clearInputTracking_def)
qed

lemma reachable_phase_exclusive: "reachable e s \<Longrightarrow> \<not> (running s \<and> gameOver s)"
proof (induction rule: reachable.induct)
  case (reachable_init s)
  then show ?case
    by (simp add: initial_def)
next
  case (reachable_step s ev)
  then show ?case
    by (intro step_phase_exclusive)
qed

section \<open>Typed characters\<close>

lemma first_with_id_is_target:
  assumes "ids_increasing s" and "t \<in> set (activeWords s)"
    and "activeWords s = pre @ w # post" and "word_id w = word_id t"
  shows "w = t"
proof -
  have d: "distinct (map word_id (pre @ w # post))"
    using assms(1) unfolding ids_increasing_def assms(3)
    by (simp only: strict_sorted_iff)
  have "w \<in> set (pre @ w # post)" "t \<in> set (pre @ w # post)"
    using assms(2,3) by simp_all
  with d assms(4) show ?thesis
    by (meson distinct_map inj_onD)
qed

text \<open>
  C3. A character typed while the game runs unfrozen, in a state the engine can
  reach (where \<open>running\<close> excludes \<open>gameOver\<close>), is resolved by first trying the
  extended candidate and, failing that, the character alone (\<open>spec_resolve\<close>). With
  no match the buffer and the target are cleared and nothing else of the targeting
  is kept. With a match the buffer and the target's id are committed; and when the
  committed buffer is the target's whole text, the first active word with that id is
  taken out of \<open>activeWords\<close> and the input tracking is cleared, and it is on that
  state that the solve sequence starts (which freezes the game).
\<close>

theorem handleTypedCharacter_steps:
  assumes "reachable e s" and "running s" and "\<not> frozen s"
  shows "(spec_resolve s (toLowerCase ch) = None \<longrightarrow>
            inputBuffer (handleTypedCharacter now s ch) = [] \<and>
            targetWordId (handleTypedCharacter now s ch) = None \<and>
            activeWords (handleTypedCharacter now s ch) = activeWords s \<and>
            \<not> frozen (handleTypedCharacter now s ch)) \<and>
         (\<forall>b t. spec_resolve s (toLowerCase ch) = Some (b, t) \<and> b \<noteq> word_text t \<longrightarrow>
            inputBuffer (handleTypedCharacter now s ch) = b \<and>
            targetWordId (handleTypedCharacter now s ch) = Some (word_id t) \<and>
            activeWords (handleTypedCharacter now s ch) = activeWords s \<and>
            \<not> frozen (handleTypedCharacter now s ch)) \<and>
         (\<forall>b t. spec_resolve s (toLowerCase ch) = Some (b, t) \<and> b = word_text t \<longrightarrow>
            (\<exists>pre w post.
               activeWords s = pre @ w # post \<and> word_id w = word_id t \<and>
               (\<forall>v\<in>set pre. word_id v \<noteq> word_id t) \<and> (ids_increasing s \<longrightarrow> w = t) \<and>
               activeWords (handleTypedCharacter now s ch) = pre @ post \<and>
               handleTypedCharacter now s ch =
                 onWordSolved_begin now
                   ((if chain_break s (toLowerCase ch) then updateHUD (s\<lparr>combo := 0\<rparr>) else s)
                      \<lparr>activeWords := pre @ post, inputBuffer := [], targetWordId := None\<rparr>) w) \<and>
            inputBuffer (handleTypedCharacter now s ch) = [] \<and>
            targetWordId (handleTypedCharacter now s ch) = None \<and>
            frozen (handleTypedCharacter now s ch))"
proof -
  from reachable_phase_exclusive[OF assms(1)] assms(2) have "\<not> gameOver s"
    by simp
  note g = assms(2,3) this
  show ?thesis
  proof (intro conjI allI impI)
  assume n: "spec_resolve s (toLowerCase ch) = None"
  show "inputBuffer (handleTypedCharacter now s ch) = []"
    "targetWordId (handleTypedCharacter now s ch) = None"
    "activeWords (handleTypedCharacter now s ch) = activeWords s"
    "\<not> frozen (handleTypedCharacter now s ch)"
    using g(2)
    by (simp_all add: handleTypedCharacter_no_match[OF g n] clearInputTracking_def updateHUD_def)
next
  fix b t
  assume "spec_resolve s (toLowerCase ch) = Some (b, t) \<and> b \<noteq> word_text t"
  then have c: "spec_resolve s (toLowerCase ch) = Some (b, t)" "b \<noteq> word_text t"
    by simp_all
  show "inputBuffer (handleTypedCharacter now s ch) = b"
    "targetWordId (handleTypedCharacter now s ch) = Some (word_id t)"
    "activeWords (handleTypedCharacter now s ch) = activeWords s"
    "\<not> frozen (handleTypedCharacter now s ch)"
    using g(2)
    by (simp_all add: handleTypedCharacter_commit[OF g c] updateHUD_def)
next
  fix b t
  assume "spec_resolve s (toLowerCase ch) = Some (b, t) \<and> b = word_text t"
  then have c: "spec_resolve s (toLowerCase ch) = Some (b, t)" "b = word_text t"
    by simp_all
  from handleTypedCharacter_solve[OF g c, of now] obtain pre w post where
      h: "activeWords s = pre @ w # post" "word_id w = word_id t"
         "\<forall>v\<in>set pre. word_id v \<noteq> word_id t"
         "handleTypedCharacter now s ch =
            onWordSolved_begin now
              ((if chain_break s (toLowerCase ch) then updateHUD (s\<lparr>combo := 0\<rparr>) else s)
                 \<lparr>activeWords := pre @ post, inputBuffer := [], targetWordId := None\<rparr>) w"
    by blast
  have "t \<in> set (activeWords s)"
    using spec_resolve_Some[OF c(1)] by (auto dest: chooseTarget_Some_mem)
  then have "ids_increasing s \<longrightarrow> w = t"
    using h(1,2) by (auto intro: first_with_id_is_target)
  moreover have "activeWords (handleTypedCharacter now s ch) = pre @ post"
    by (simp add: h(4) onWordSolved_begin_def animateDissolve_def animateScoreGain_def
        updateHUD_def Let_def)
  ultimately show "\<exists>pre w post.
       activeWords s = pre @ w # post \<and> word_id w = word_id t \<and>
       (\<forall>v\<in>set pre. word_id v \<noteq> word_id t) \<and> (ids_increasing s \<longrightarrow> w = t) \<and>
       activeWords (handleTypedCharacter now s ch) = pre @ post \<and>
       handleTypedCharacter now s ch =
         onWordSolved_begin now
           ((if chain_break s (toLowerCase ch) then updateHUD (s\<lparr>combo := 0\<rparr>) else s)
              \<lparr>activeWords := pre @ post, inputBuffer := [], targetWordId := None\<rparr>) w"
    using h by blast
  show "inputBuffer (handleTypedCharacter now s ch) = []"
    "targetWordId (handleTypedCharacter now s ch) = None"
    "frozen (handleTypedCharacter now s ch)"
    by (simp_all add: h(4) onWordSolved_begin_def animateDissolve_def animateScoreGain_def
        updateHUD_def Let_def)
qed
qed

theorem handleTypedCharacter_steps_witness:
  "running (step demo_env idle_state (StartGame 1 ''en-US'' [''a''] 0)) \<and>
   \<not> frozen (step demo_env idle_state (StartGame 1 ''en-US'' [''a''] 0)) \<and>
   map word_text (activeWords (step demo_env idle_state (StartGame 1 ''en-US'' [''a''] 0))) = [''a''] \<and>
   inputBuffer (handleTypedCharacter 0 (step demo_env idle_state (StartGame 1 ''en-US'' [''a''] 0)) ''A'') = [] \<and>
   targetWordId (handleTypedCharacter 0 (step demo_env idle_state (StartGame 1 ''en-US'' [''a''] 0)) ''A'') = None \<and>
   frozen (handleTypedCharacter 0 (step demo_env idle_state (StartGame 1 ''en-US'' [''a''] 0)) ''A'') \<and>
   activeWords (handleTypedCharacter 0 (step demo_env idle_state (StartGame 1 ''en-US'' [''a''] 0)) ''A'') = []"
proof -
  let ?s = "step demo_env idle_state (StartGame 1 ''en-US'' [''a''] 0)"
  have r: "reachable demo_env ?s"
    by (intro reachable_step reachable_init) (simp add: initial_def idle_state_def)
  have s1: "running ?s" "\<not> frozen ?s" "inputBuffer ?s = []"
      "map word_text (activeWords ?s) = [''a'']"
    by (simp_all add: startGame_def resetRuntimeState_def updateHUD_def idle_state_def shuffle_def
        spawnWord_def chooseSpawnX_def demo_env_def Let_def)
  have lc: "toLowerCase ''A'' = ''a''"
    by (simp add: toLowerCase_def lower_char_def upper_letters_def lower_letters_def)
  obtain w where aw: "activeWords ?s = [w]" "word_text w = ''a''"
    using s1(4) by (cases "activeWords ?s") auto
  have "chooseTarget ?s ''a'' = Some w"
    by (simp add: chooseTarget_def aw del: step.simps)
  then have res: "spec_resolve ?s (toLowerCase ''A'') = Some (''a'', w)"
    by (simp add: spec_resolve_def lc s1(3) del: step.simps)
  have k: "''a'' = word_text w"
    using aw(2) by simp
  note third = handleTypedCharacter_steps[OF r s1(1,2), of "''A''" 0,
      THEN conjunct2, THEN conjunct2, rule_format, OF conjI[OF res k]]
  note c = third[THEN conjunct2, THEN conjunct1]
    third[THEN conjunct2, THEN conjunct2, THEN conjunct1]
    third[THEN conjunct2, THEN conjunct2, THEN conjunct2]
  from third[THEN conjunct1] obtain pre v post where
      p: "activeWords ?s = pre @ v # post"
         "activeWords (handleTypedCharacter 0 ?s ''A'') = pre @ post"
    by (elim conjE exE) (rule that)
  from p(1) have "pre = []" "post = []"
    by (simp_all add: aw(1) Cons_eq_append_conv del: step.simps)
  with p(2) have "activeWords (handleTypedCharacter 0 ?s ''A'') = []"
    by (simp del: step.simps)
  with s1(1,2,4) c show ?thesis
    by (simp del: step.simps)
qed

section \<open>Settings endpoint: accepted accents\<close>

text \<open>
  An accepted accent does not get persisted when the configuration file cannot be
  read (a malformed line, say): the handler answers 500 and writes nothing.
\<close>

theorem handleSettingsAccent_unreadable_counterexample:
  "handleSettingsAccent ''/books'' ''PUT'' (Some ''en-GB'') Failed True
     = (Error 500 ''failed to read settings'', None)"
  by (simp add: handleSettingsAccent_def TrimSpace_def strip_runes.simps space_runes_def
      loadConfigOptional_def)

text \<open>
  C9, amended. For a PUT request: a body that does not decode, and a body whose
  trimmed accent is neither \<open>en-US\<close> nor \<open>en-GB\<close>, are answered with status 400 and
  nothing is written. A body whose trimmed accent is one of the two is accepted: if
  the stored configuration cannot be read the answer is 500 and nothing is written;
  otherwise the configuration handed to \<open>writeConfig\<close> carries the trimmed accent and
  the stored wordbook, and the answer is the snapshot of that accent and wordbook when
  the write succeeds, 500 when it fails.
\<close>

theorem handleSettingsAccent_spec:
  "(body = None \<longrightarrow>
      handleSettingsAccent dir ''PUT'' body file write_ok = (Error 400 ''invalid request body'', None)) \<and>
   (\<forall>a. body = Some a \<and> TrimSpace a \<noteq> ''en-US'' \<and> TrimSpace a \<noteq> ''en-GB'' \<longrightarrow>
      handleSettingsAccent dir ''PUT'' body file write_ok = (Error 400 ''invalid accent'', None)) \<and>
   (\<forall>a. body = Some a \<and> (TrimSpace a = ''en-US'' \<or> TrimSpace a = ''en-GB'') \<longrightarrow>
      (loadConfigOptional file = None \<longrightarrow>
         handleSettingsAccent dir ''PUT'' body file write_ok = (Error 500 ''failed to read settings'', None)) \<and>
      (\<forall>cfg0. loadConfigOptional file = Some cfg0 \<longrightarrow>
         (\<exists>cfg. snd (handleSettingsAccent dir ''PUT'' body file write_ok) = Some cfg \<and>
                Accent cfg = TrimSpace a \<and> Wordbook cfg = Wordbook cfg0) \<and>
         (write_ok \<longrightarrow> fst (handleSettingsAccent dir ''PUT'' body file write_ok)
              = Json \<lparr>resp_Accent = TrimSpace a, resp_Wordbook = Wordbook cfg0\<rparr>) \<and>
         (\<not> write_ok \<longrightarrow> fst (handleSettingsAccent dir ''PUT'' body file write_ok)
              = Error 500 ''failed to write settings'')))"
proof (intro conjI allI impI)
  assume "body = None"
  then show "handleSettingsAccent dir ''PUT'' body file write_ok = (Error 400 ''invalid request body'', None)"
    by (simp add: handleSettingsAccent_def)
next
  fix a
  assume "body = Some a \<and> TrimSpace a \<noteq> ''en-US'' \<and> TrimSpace a \<noteq> ''en-GB''"
  then show "handleSettingsAccent dir ''PUT'' body file write_ok = (Error 400 ''invalid accent'', None)"
    by (simp add: handleSettingsAccent_def)
next
  fix a
  assume "body = Some a \<and> (TrimSpace a = ''en-US'' \<or> TrimSpace a = ''en-GB'')"
    and "loadConfigOptional file = None"
  then show "handleSettingsAccent dir ''PUT'' body file write_ok = (Error 500 ''failed to read settings'', None)"
    by (auto simp: handleSettingsAccent_def)
next
  fix a cfg0
  assume h: "body = Some a \<and> (TrimSpace a = ''en-US'' \<or> TrimSpace a = ''en-GB'')"
    "loadConfigOptional file = Some cfg0"
  then show "\<exists>cfg. snd (handleSettingsAccent dir ''PUT'' body file write_ok) = Some cfg \<and>
                Accent cfg = TrimSpace a \<and> Wordbook cfg = Wordbook cfg0"
    by (auto simp: handleSettingsAccent_def Let_def)
  {
    assume "write_ok"
    with h show "fst (handleSettingsAccent dir ''PUT'' body file write_ok)
              = Json \<lparr>resp_Accent = TrimSpace a, resp_Wordbook = Wordbook cfg0\<rparr>"
      by (auto simp: handleSettingsAccent_def Let_def)
  }
  {
    assume "\<not> write_ok"
    with h show "fst (handleSettingsAccent dir ''PUT'' body file write_ok)
              = Error 500 ''failed to write settings''"
      by (auto simp: handleSettingsAccent_def Let_def)
  }
qed

theorem handleSettingsAccent_spec_witness:
  "TrimSpace '' en-GB  '' = ''en-GB'' \<and>
   handleSettingsAccent ''/books'' ''PUT'' (Some '' en-GB  '') NotExist True
     = (Json \<lparr>resp_Accent = ''en-GB'', resp_Wordbook = []\<rparr>,
        Some \<lparr>Host = ''127.0.0.1'', Port = 8080, WordbooksDir = ''/books'', OpenBrowser = True,
              Accent = ''en-GB'', Wordbook = []\<rparr>) \<and>
   handleSettingsAccent ''/books'' ''PUT'' (Some ''en-AU'') NotExist True
     = (Error 400 ''invalid accent'', None) \<and>
   handleSettingsAccent ''/books'' ''PUT'' None NotExist True
     = (Error 400 ''invalid request body'', None)"
proof -
  have t: "TrimSpace '' en-GB  '' = ''en-GB''" "TrimSpace ''en-AU'' = ''en-AU''"
    by (simp_all add: TrimSpace_def strip_runes.simps space_runes_def)
  have l: "loadConfigOptional NotExist = Some empty_config"
    by (simp add: loadConfigOptional_def)
  have w: "snd (handleSettingsAccent ''/books'' ''PUT'' (Some '' en-GB  '') NotExist True)
     = Some \<lparr>Host = ''127.0.0.1'', Port = 8080, WordbooksDir = ''/books'', OpenBrowser = True,
              Accent = ''en-GB'', Wordbook = []\<rparr>"
    by (simp add: handleSettingsAccent_def t l empty_config_def Let_def)
  have f: "fst (handleSettingsAccent ''/books'' ''PUT'' (Some '' en-GB  '') NotExist True)
     = Json \<lparr>resp_Accent = ''en-GB'', resp_Wordbook = []\<rparr>"
    using handleSettingsAccent_spec[of "Some '' en-GB  ''" "''/books''" NotExist True] t l
    by (simp add: empty_config_def)
  have r: "handleSettingsAccent ''/books'' ''PUT'' (Some ''en-AU'') NotExist True
     = (Error 400 ''invalid accent'', None)"
    using handleSettingsAccent_spec[of "Some ''en-AU''" "''/books''" NotExist True] t
    by simp
  have n: "handleSettingsAccent ''/books'' ''PUT'' None NotExist True
     = (Error 400 ''invalid request body'', None)"
    using handleSettingsAccent_spec[of None "''/books''" NotExist True]
    by simp
  from t(1) w f r n show ?thesis
    by (simp add: prod_eq_iff)
qed

end
